theory Spec2Isabelle
  imports Complex_Main
begin

section \<open>The solver of semnan\_cuda.cpp, embedded\<close>

text \<open>
  The class \<open>SEMNANSolver\<close> of \<open>src/semnan_cuda.cpp\<close> is embedded function by function.
  Conventions of the embedding:
  \<^item> \<open>scalar_t\<close> (float or double) is idealised as \<open>real\<close>: rounding is not modelled;
  \<^item> the tensors the caller hands in (structure, parameters, sample covariance) and
    the cached inverse and log-determinant are values (\<open>'a tensor\<close>: sizes and row-major
    elements);
  \<^item> the tensors the solver owns and hands out as live references (weights, lambda,
    covariance, their gradients) are views into an explicit heap of buffers, so that
    two views of one buffer alias as they do in libtorch;
  \<^item> an exception is a value \<open>Inl e\<close>; a method that can throw after it has changed
    the object returns the object (and the heap) next to the result;
  \<^item> the narrowing of the extents of the structure to \<open>int32_t\<close> is written out where
    the constructor checks its arguments; what follows the checks is modelled for
    extents that fit \<open>int32_t\<close>, and the \<open>int32_t\<close> counters of the compilation are \<open>nat\<close> or
    \<open>int\<close>, taken not to overflow.
\<close>

subsection \<open>Errors\<close>

datatype error =
    Dimension_out_of_range          \<comment> \<open>\<open>Tensor::size(d)\<close> with \<open>d\<close> not a dimension of the tensor\<close>
  | Check_failed string             \<comment> \<open>a failed \<open>TORCH_CHECK\<close>, with its message\<close>
  | Index_out_of_range              \<comment> \<open>tensor indexing outside a dimension\<close>
  | Vector_out_of_bounds int        \<comment> \<open>\<open>std::vector::operator[]\<close> outside the vector\<close>
  | Shape_mismatch                  \<comment> \<open>operands of \<open>mm\<close>, \<open>copy_\<close>, \<open>subtract_\<close> that do not fit\<close>
  | Singular_matrix                 \<comment> \<open>\<open>torch::inverse\<close> of a matrix with determinant 0\<close>
  | Not_finite                      \<comment> \<open>\<open>torch::logdet\<close> of a matrix with determinant \<open>\<le> 0\<close>\<close>
  | Beyond_int32                    \<comment> \<open>no exception of the source: where the model ends, see \<open>init_parameters\<close>\<close>

datatype Dtype = kBool | kInt32 | kHalf | kFloat | kDouble

subsection \<open>Tensors as values\<close>

record 'a tensor =
  sizes :: "nat list"
  elems :: "'a list"
  is_cuda :: bool

definition numel :: "('a, 'b) tensor_scheme \<Rightarrow> nat" where
  "numel t = prod_list (sizes t)"

definition dim :: "('a, 'b) tensor_scheme \<Rightarrow> nat" where
  "dim t = length (sizes t)"

text \<open>A default-constructed \<open>torch::Tensor()\<close>: no elements.\<close>

definition undefined_tensor :: "'a tensor" where
  "undefined_tensor = \<lparr>sizes = [0], elems = [], is_cuda = False\<rparr>"

text \<open>The invariant of a tensor value: as many elements as its sizes say.\<close>

definition well_formed :: "('a, 'b) tensor_scheme \<Rightarrow> bool" where
  "well_formed t \<longleftrightarrow> length (elems t) = prod_list (sizes t)"

text \<open>\<open>t[r][c].item()\<close> of a two-dimensional tensor.\<close>

definition at2 :: "('a, 'b) tensor_scheme \<Rightarrow> nat \<Rightarrow> nat \<Rightarrow> 'a" where
  "at2 t r c = elems t ! (r * (sizes t ! 1) + c)"

definition matrix_tensor :: "nat \<Rightarrow> nat \<Rightarrow> (nat \<Rightarrow> nat \<Rightarrow> 'a) \<Rightarrow> 'a tensor" where
  "matrix_tensor r c f =
     \<lparr>sizes = [r, c], elems = concat (map (\<lambda>i. map (f i) [0..<c]) [0..<r]), is_cuda = True\<rparr>"

definition scalar_tensor :: "'a \<Rightarrow> 'a tensor" where
  "scalar_tensor x = \<lparr>sizes = [], elems = [x], is_cuda = True\<rparr>"

subsection \<open>The dense linear algebra of libtorch, over the reals\<close>

text \<open>
  \<open>torch::mm\<close>, \<open>torch::trace\<close>, \<open>torch::inverse\<close> and \<open>torch::logdet\<close> belong to libtorch.
  They are modelled by what they compute in exact arithmetic: the determinant by
  expansion along the first row, the inverse by the adjugate. \<open>torch::inverse\<close> throws on
  a singular matrix; \<open>torch::logdet\<close> returns \<open>-inf\<close> or \<open>nan\<close> where the determinant is not
  positive, which no real number stands for: the model stops with \<open>Not_finite\<close> there.
\<close>

fun remove_nth :: "nat \<Rightarrow> 'a list \<Rightarrow> 'a list" where
  "remove_nth n xs = take n xs @ drop (Suc n) xs"

definition rows_of :: "real tensor \<Rightarrow> real list list" where
  "rows_of t = map (\<lambda>i. map (at2 t i) [0..<sizes t ! 1]) [0..<sizes t ! 0]"

fun det :: "real list list \<Rightarrow> real" where
  "det [] = 1"
| "det (r # rs) =
     sum_list (map (\<lambda>j. (- 1) ^ j * (r ! j) * det (map (remove_nth j) rs)) [0..<length r])"

definition cofactor :: "real list list \<Rightarrow> nat \<Rightarrow> nat \<Rightarrow> real" where
  "cofactor m i j = (- 1) ^ (i + j) * det (map (remove_nth j) (remove_nth i m))"

definition torch_inverse :: "real tensor \<Rightarrow> error + real tensor" where
  "torch_inverse t =
     (if dim t = 2 \<and> sizes t ! 0 = sizes t ! 1 then
        let m = rows_of t; d = det m in
          if d = 0 then Inl Singular_matrix
          else Inr (matrix_tensor (sizes t ! 0) (sizes t ! 0) (\<lambda>i j. cofactor m j i / d))
      else Inl Shape_mismatch)"

definition torch_logdet :: "real tensor \<Rightarrow> error + real tensor" where
  "torch_logdet t =
     (if dim t = 2 \<and> sizes t ! 0 = sizes t ! 1 then
        let d = det (rows_of t) in
          if d \<le> 0 then Inl Not_finite else Inr (scalar_tensor (ln d))
      else Inl Shape_mismatch)"

definition torch_mm :: "real tensor \<Rightarrow> real tensor \<Rightarrow> error + real tensor" where
  "torch_mm a b =
     (if dim a = 2 \<and> dim b = 2 \<and> sizes a ! 1 = sizes b ! 0 then
        Inr (matrix_tensor (sizes a ! 0) (sizes b ! 1)
              (\<lambda>i j. sum_list (map (\<lambda>k. at2 a i k * at2 b k j) [0..<sizes a ! 1])))
      else Inl Shape_mismatch)"

definition torch_trace :: "real tensor \<Rightarrow> real" where
  "torch_trace t = sum_list (map (\<lambda>i. at2 t i i) [0..<min (sizes t ! 0) (sizes t ! 1)])"

text \<open>The single element of a zero-dimensional tensor.\<close>

definition item :: "'a tensor \<Rightarrow> 'a" where
  "item t = elems t ! 0"

subsection \<open>The heap of buffers and the views into it\<close>

type_synonym heap = "real list list"

record view =
  storage :: nat
  storage_offset :: nat
  shape :: "nat list"
  strides :: "nat list"

fun contiguous_strides :: "nat list \<Rightarrow> nat list" where
  "contiguous_strides [] = []"
| "contiguous_strides (n # ns) = prod_list ns # contiguous_strides ns"

text \<open>\<open>torch::zeros(shape)\<close> and \<open>torch::zeros_like\<close>: a fresh buffer of zeros.\<close>

definition alloc :: "heap \<Rightarrow> nat list \<Rightarrow> real list \<Rightarrow> view \<times> heap" where
  "alloc h shp xs =
     (\<lparr>storage = length h, storage_offset = 0, shape = shp, strides = contiguous_strides shp\<rparr>,
      h @ [xs])"

definition zeros :: "heap \<Rightarrow> nat list \<Rightarrow> view \<times> heap" where
  "zeros h shp = alloc h shp (replicate (prod_list shp) 0)"

text \<open>
  \<open>Slice(a, None)\<close> along dimension \<open>d\<close> (the other dimensions whole): the start is
  clamped to the extent; the result shares the storage.
\<close>

definition slice_from :: "nat \<Rightarrow> nat \<Rightarrow> view \<Rightarrow> view" where
  "slice_from d a v =
     (let a' = min a (shape v ! d) in
      v\<lparr>storage_offset := storage_offset v + a' * (strides v ! d),
        shape := (shape v)[d := shape v ! d - a']\<rparr>)"

text \<open>\<open>v[k]\<close>: the \<open>k\<close>-th slab along dimension 0, sharing the storage.\<close>

definition select0 :: "nat \<Rightarrow> view \<Rightarrow> error + view" where
  "select0 k v =
     (if shape v = [] \<or> k \<ge> hd (shape v) then Inl Index_out_of_range
      else Inr (v\<lparr>storage_offset := storage_offset v + k * hd (strides v),
                  shape := tl (shape v), strides := tl (strides v)\<rparr>))"

definition addr2 :: "view \<Rightarrow> nat \<Rightarrow> nat \<Rightarrow> nat" where
  "addr2 v i j = storage_offset v + i * (strides v ! 0) + j * (strides v ! 1)"

definition read2 :: "heap \<Rightarrow> view \<Rightarrow> nat \<Rightarrow> nat \<Rightarrow> real" where
  "read2 h v i j = h ! storage v ! addr2 v i j"

text \<open>The value a two-dimensional view shows at the moment.\<close>

definition to_tensor :: "heap \<Rightarrow> view \<Rightarrow> real tensor" where
  "to_tensor h v = matrix_tensor (shape v ! 0) (shape v ! 1) (read2 h v)"

text \<open>
  An in-place elementwise operation on a two-dimensional view: \<open>copy_\<close> and \<open>subtract_\<close>
  write through the view into the buffer it shares.
\<close>

definition inplace2 :: "(real \<Rightarrow> real \<Rightarrow> real) \<Rightarrow> heap \<Rightarrow> view \<Rightarrow> real tensor \<Rightarrow> error + heap" where
  "inplace2 f h v t =
     (if sizes t = shape v \<and> length (shape v) = 2 then
        Inr (h[storage v :=
          foldl (\<lambda>buf (i, j). buf[addr2 v i j := f (buf ! addr2 v i j) (at2 t i j)])
            (h ! storage v) (List.product [0..<shape v ! 0] [0..<shape v ! 1])])
      else Inl Shape_mismatch)"

definition copy_inplace :: "heap \<Rightarrow> view \<Rightarrow> real tensor \<Rightarrow> error + heap" where
  "copy_inplace = inplace2 (\<lambda>old x. x)"

definition subtract_inplace :: "heap \<Rightarrow> view \<Rightarrow> real tensor \<Rightarrow> error + heap" where
  "subtract_inplace = inplace2 (\<lambda>old x. old - x)"

subsection \<open>The solver object\<close>

text \<open>
  Modelled from the spec: \<open>SEMNANLayerData\<close> is declared in \<open>device_data.h\<close>, which is not
  among the sources. The spec's layer records an index, the count of visible nodes
  assigned and a latent width; the constructor call \<open>SEMNANLayerData(idx, c)\<close> of the
  source passes the index and the first visible node of the layer, kept here as \<open>base\<close>.
  The count starts at 0. A default-constructed record is taken to be all zeros; nothing
  below depends on it.
\<close>

record SEMNANLayerData =
  idx :: int
  base :: int
  num :: nat
  lat_width :: nat

definition new_SEMNANLayerData :: "int \<Rightarrow> int \<Rightarrow> SEMNANLayerData" where
  "new_SEMNANLayerData i c = \<lparr>idx = i, base = c, num = 0, lat_width = 0\<rparr>"

definition default_SEMNANLayerData :: SEMNANLayerData where
  "default_SEMNANLayerData = \<lparr>idx = 0, base = 0, num = 0, lat_width = 0\<rparr>"

text \<open>
  The fields of the class. \<open>visible_size\<close> and \<open>latent_size\<close> are \<open>nat\<close>: the model makes a
  solver only from extents that fit \<open>int32_t\<close> and after the check \<open>latent_size >= 0\<close> has
  passed, and there both are not negative. The gradient of a tensor
  (\<open>mutable_grad()\<close>) is a field of its own. The one-dimensional \<open>int32\<close> tensors of the
  compiled graph are lists; \<open>children_bases\<close> is kept row-major with its row length
  \<open>num_layers()\<close>; \<open>latent_presence_range\<close> is a list of rows \<open>(first, last)\<close>.
\<close>

record SEMNANSolver =
  structure_t :: "bool tensor"
  lambda :: view
  weights :: view
  weights_grad :: view
  covariance :: view
  covariance_grad :: view
  visible_covariance :: view
  visible_covariance_grad :: view
  sample_covariance :: "real tensor"
  sample_covariance_inv :: "real tensor"
  sample_covariance_logdet :: "real tensor"
  parents :: "int list"
  parents_bases :: "int list"
  children :: "int list"
  children_bases :: "int list"
  latent_neighbors :: "int list"
  latent_neighbors_bases :: "int list"
  latent_presence_range :: "(int \<times> int) list"
  layers_vec :: "SEMNANLayerData list"
  visible_size :: nat
  latent_size :: nat
  dtype :: Dtype

definition num_layers :: "SEMNANSolver \<Rightarrow> nat" where
  "num_layers s = length (layers_vec s)"

subsection \<open>init\_parameters\<close>

text \<open>
  The members \<open>visible_size\<close> and \<open>latent_size\<close> are \<open>int32_t\<close>, the extents of a tensor are
  \<open>int64_t\<close>. Conversion to \<open>int32_t\<close>: the value modulo \<open>2\<^sup>3\<^sup>2\<close>, in the signed range.
\<close>

definition int32 :: "int \<Rightarrow> int" where
  "int32 x = (x + 2147483648) mod 4294967296 - 2147483648"

text \<open>
  Lines 71 to 82 of \<open>init_parameters\<close>: the assignments of \<open>visible_size\<close> and \<open>latent_size\<close>
  and the six checks, in the order of the source. \<open>structure.size(1)\<close> is read before any
  check, so a structure of fewer than two dimensions fails there. The difference
  \<open>structure.size(0) - visible_size\<close> is taken in \<open>int64_t\<close> and narrowed when it is stored;
  the check \<open>latent_size >= 0\<close> reads the stored value. The local \<open>total_size\<close> of line 75
  is not used by the method. When every check passes the result is the pair
  \<open>(visible_size, latent_size)\<close> as stored.
\<close>

definition init_checks :: "bool tensor \<Rightarrow> real tensor \<Rightarrow> Dtype \<Rightarrow> error + int \<times> int" where
  "init_checks structure parameters dt =
     (if dim structure < 2 then Inl Dimension_out_of_range
      else
        let visible = int32 (int (sizes structure ! 1));
            latent = int32 (int (sizes structure ! 0) - visible)
        in
          if \<not> is_cuda structure then
            Inl (Check_failed ''`structure` must be a CUDA tensor.'')
          else if dim structure \<noteq> 2 then
            Inl (Check_failed ''`structure` must be 2-dimensional'')
          else if \<not> numel structure > 0 then
            Inl (Check_failed ''`structure` needs at least one element.'')
          else if \<not> latent \<ge> 0 then
            Inl (Check_failed ''`structure` must be a vertical-rectangular matrix.'')
          else if \<not> (dt = kFloat \<or> dt = kDouble) then
            Inl (Check_failed ''`dtype` must be either float or double.'')
          else if \<not> (numel parameters = 0 \<or> sizes parameters = sizes structure) then
            Inl (Check_failed ''`parameters` must have the same size as `structure`.'')
          else Inr (visible, latent))"

text \<open>
  \<open>init_parameters\<close>: the checks, and only then the buffers. \<open>noise k\<close> is the \<open>k\<close>-th value
  \<open>torch::randn_like\<close> draws. The assignments to \<open>this\<close> that precede the checks are not
  observable: the method runs inside the constructor only, and an exception there
  leaves no object.

  Where the model ends. When both extents of the structure fit \<open>int32_t\<close>, the stored
  sizes are the number of columns and the number of rows minus the number of columns,
  and the rest of the method is modelled as written. When an extent does not fit and
  the checks have passed all the same, the source goes on with the wrapped sizes; the
  model does not follow it there and ends with \<open>Beyond_int32\<close>, which stands for no
  exception of the source.

  \<open>base.to(options)\<close> is modelled as a fresh buffer. For parameters that are a CUDA
  tensor of the requested precision already, libtorch returns the tensor itself, and
  the weights then share the storage of the caller's tensor; the caller's tensors are
  values here, so that sharing is outside the model. No statement below is about the
  storage of the weights.
\<close>

definition init_parameters ::
  "heap \<Rightarrow> bool tensor \<Rightarrow> real tensor \<Rightarrow> Dtype \<Rightarrow> (nat \<Rightarrow> real) \<Rightarrow> (error + SEMNANSolver) \<times> heap" where
  "init_parameters h structure parameters dt noise =
     (case init_checks structure parameters dt of
        Inl e \<Rightarrow> (Inl e, h)
      | Inr (visible, latent) \<Rightarrow>
          if \<not> (int (sizes structure ! 0) < 2147483648 \<and> int (sizes structure ! 1) < 2147483648)
          then (Inl Beyond_int32, h)
          else
            let vis = nat visible;
                lat = nat latent;
                parameters_exist = numel parameters > 0;
                n = numel structure;
                base_elems = (if parameters_exist then elems parameters
                              else map of_bool (elems structure));
                factor = (if parameters_exist then (\<lambda>k. of_bool (elems structure ! k)) else noise);
                (w, h1) = alloc h (sizes structure) (map (\<lambda>k. base_elems ! k * factor k) [0..<n]);
                (cov, h2) = zeros h1 (shape w);
                (lam, h3) = zeros h2 (shape w);
                vcov = slice_from 0 lat cov;
                (wg, h4) = zeros h3 (shape w);
                (cg, h5) = zeros h4 [2, shape cov ! 0, shape cov ! 1];
                vcg = slice_from 1 lat cg
            in (Inr \<lparr>structure_t = structure, lambda = lam, weights = w, weights_grad = wg,
                     covariance = cov, covariance_grad = cg,
                     visible_covariance = vcov, visible_covariance_grad = vcg,
                     sample_covariance = undefined_tensor,
                     sample_covariance_inv = undefined_tensor,
                     sample_covariance_logdet = undefined_tensor,
                     parents = [], parents_bases = [], children = [], children_bases = [],
                     latent_neighbors = [], latent_neighbors_bases = [],
                     latent_presence_range = [], layers_vec = [],
                     visible_size = vis, latent_size = lat, dtype = dt\<rparr>, h5))"

subsection \<open>The sample covariance and the losses\<close>

definition set_sample_covariance ::
  "real tensor \<Rightarrow> SEMNANSolver \<Rightarrow> (error + unit) \<times> SEMNANSolver" where
  "set_sample_covariance sc s =
     (if \<not> dim sc = 2 then
        (Inl (Check_failed ''`sample_covariance` must be 2-dimensional''), s)
      else if \<not> sizes sc ! 0 = sizes sc ! 1 then
        (Inl (Check_failed ''`sample_covariance` must be a square matrix.''), s)
      else if \<not> sizes sc ! 0 = visible_size s then
        (Inl (Check_failed ''`sample_covariance` must be a V x V matrix.''), s)
      else (Inr (), s\<lparr>sample_covariance := sc\<lparr>is_cuda := True\<rparr>\<rparr>))"

definition get_sample_covariance_inv ::
  "SEMNANSolver \<Rightarrow> (error + real tensor) \<times> SEMNANSolver" where
  "get_sample_covariance_inv s =
     (if numel (sample_covariance_inv s) = 0 then
        (case torch_inverse (sample_covariance s) of
           Inl e \<Rightarrow> (Inl e, s)
         | Inr m \<Rightarrow> (Inr m, s\<lparr>sample_covariance_inv := m\<rparr>))
      else (Inr (sample_covariance_inv s), s))"

definition get_sample_covariance_logdet ::
  "SEMNANSolver \<Rightarrow> (error + real tensor) \<times> SEMNANSolver" where
  "get_sample_covariance_logdet s =
     (if numel (sample_covariance_logdet s) = 0 then
        (case torch_logdet (sample_covariance s) of
           Inl e \<Rightarrow> (Inl e, s)
         | Inr m \<Rightarrow> (Inr m, s\<lparr>sample_covariance_logdet := m\<rparr>))
      else (Inr (sample_covariance_logdet s), s))"

text \<open>
  The losses read the visible covariance through its view, from the heap as it is when
  they are called. They return the element of the zero-dimensional result tensor.
\<close>

definition kullback_leibler_proxy_loss ::
  "heap \<Rightarrow> SEMNANSolver \<Rightarrow> (error + real) \<times> SEMNANSolver" where
  "kullback_leibler_proxy_loss h s =
     (case get_sample_covariance_inv s of
        (Inl e, s1) \<Rightarrow> (Inl e, s1)
      | (Inr sci, s1) \<Rightarrow>
          (case torch_mm sci (to_tensor h (visible_covariance s1)) of
             Inl e \<Rightarrow> (Inl e, s1)
           | Inr m \<Rightarrow>
               (case torch_logdet (to_tensor h (visible_covariance s1)) of
                  Inl e \<Rightarrow> (Inl e, s1)
                | Inr ld \<Rightarrow> (Inr (torch_trace m - item ld), s1))))"

definition kullback_leibler_loss ::
  "heap \<Rightarrow> SEMNANSolver \<Rightarrow> (error + real) \<times> SEMNANSolver" where
  "kullback_leibler_loss h s =
     (case kullback_leibler_proxy_loss h s of
        (Inl e, s1) \<Rightarrow> (Inl e, s1)
      | (Inr px, s1) \<Rightarrow>
          (case get_sample_covariance_logdet s1 of
             (Inl e, s2) \<Rightarrow> (Inl e, s2)
           | (Inr ld, s2) \<Rightarrow> (Inr ((px - real (visible_size s2) + item ld) / 2), s2)))"

text \<open>
  The seed of the reverse sweep: slab \<open>(num_layers() + 1) % 2\<close> of the gradient of the
  visible covariance receives the (cached) inverse of the sample covariance, then has
  the inverse of the visible covariance subtracted in place.
\<close>

definition kullback_leibler_loss_backward ::
  "heap \<Rightarrow> SEMNANSolver \<Rightarrow> (error + unit) \<times> SEMNANSolver \<times> heap" where
  "kullback_leibler_loss_backward h s =
     (case select0 ((num_layers s + 1) mod 2) (visible_covariance_grad s) of
        Inl e \<Rightarrow> (Inl e, s, h)
      | Inr visible_covariance_grad_k \<Rightarrow>
          (case get_sample_covariance_inv s of
             (Inl e, s1) \<Rightarrow> (Inl e, s1, h)
           | (Inr sci, s1) \<Rightarrow>
               (case copy_inplace h visible_covariance_grad_k sci of
                  Inl e \<Rightarrow> (Inl e, s1, h)
                | Inr h1 \<Rightarrow>
                    (case torch_inverse (to_tensor h1 (visible_covariance s1)) of
                       Inl e \<Rightarrow> (Inl e, s1, h1)
                     | Inr vci \<Rightarrow>
                         (case subtract_inplace h1 visible_covariance_grad_k vci of
                            Inl e \<Rightarrow> (Inl e, s1, h1)
                          | Inr h2 \<Rightarrow> (Inr (), s1, h2))))))"

text \<open>The accessors return the member itself: a reference, not a copy.\<close>

definition get_covariance :: "SEMNANSolver \<Rightarrow> view" where
  "get_covariance s = covariance s"

definition get_visible_covariance :: "SEMNANSolver \<Rightarrow> view" where
  "get_visible_covariance s = visible_covariance s"

subsection \<open>make\_structures\<close>

text \<open>
  The local variables of \<open>make_structures\<close> together with the two members it builds in
  its first loop: \<open>ranges\<close> is \<open>this->latent_presence_range\<close> and \<open>layers\<close> is
  \<open>this->layers_vec\<close> while they are under construction. The loops run over the rows
  \<open>r = p + latent_size\<close> and the columns \<open>c\<close> of the structure; the vectors they index keep
  the lengths the source gives them (\<open>graph_inv\<close> below), so every index of the first loop
  is inside its vector.
\<close>

record build =
  edge_count :: nat
  parents_vec :: "int list list"
  children_vec :: "int list list list"
  ranges :: "(int \<times> int) list"
  layers :: "SEMNANLayerData list"
  layer_max :: int

definition init_build :: "nat \<Rightarrow> nat \<Rightarrow> build" where
  "init_build L V =
     \<lparr>edge_count = 0, parents_vec = replicate V [],
      children_vec = [replicate (L + V) []],
      ranges = replicate L (- 1, - 1),
      layers = [default_SEMNANLayerData, new_SEMNANLayerData 1 0],
      layer_max = - 1\<rparr>"

text \<open>
  The body of the first inner loop, at row \<open>r = p + latent_size\<close> of column \<open>c\<close>: the
  parent is recorded, and a parent that is not below \<open>layer_max\<close> opens a layer.
\<close>

definition collect_parent :: "bool tensor \<Rightarrow> nat \<Rightarrow> nat \<Rightarrow> nat \<Rightarrow> build \<Rightarrow> nat \<Rightarrow> build" where
  "collect_parent S L V c b r =
     (if at2 S r c then
        let p = int r - int L;
            b1 = b\<lparr>parents_vec := (parents_vec b)[c := parents_vec b ! c @ [p]]\<rparr>;
            b2 = (if p \<ge> layer_max b1 then
                    b1\<lparr>layer_max := int c,
                       layers := layers b1 @
                          [new_SEMNANLayerData (int (length (layers b1))) (int c)],
                       children_vec := children_vec b1 @ [replicate (L + V) []]\<rparr>
                  else b1)
        in b2\<lparr>edge_count := edge_count b2 + 1\<rparr>
      else b)"

text \<open>
  The body of the second inner loop: a latent parent has its presence range extended
  to \<open>layers_vec.back().idx - 1\<close> (\<open>index_put_\<close> on \<open>Slice(0, 2)\<close>, both ends, when the
  lower end is still \<open>-1\<close>; on \<open>Slice(1, 2)\<close>, the upper end, otherwise), and the child is
  appended to the parent's bucket of the last layer.
\<close>

definition extend_range :: "int \<Rightarrow> int \<times> int \<Rightarrow> int \<times> int" where
  "extend_range k this_latent =
     (if fst this_latent = - 1 then (k, k) else (fst this_latent, k))"

definition record_child :: "bool tensor \<Rightarrow> nat \<Rightarrow> nat \<Rightarrow> build \<Rightarrow> nat \<Rightarrow> build" where
  "record_child S L c b r =
     (if at2 S r c then
        let p = int r - int L;
            b1 = (if p < 0 then
                    b\<lparr>ranges := (ranges b)[r :=
                        extend_range (idx (last (layers b)) - 1) (ranges b ! r)]\<rparr>
                  else b)
        in b1\<lparr>children_vec := (children_vec b1)[length (children_vec b1) - 1 :=
                (last (children_vec b1))[r := last (children_vec b1) ! r @ [int c]]]\<rparr>
      else b)"

definition visit_column :: "bool tensor \<Rightarrow> nat \<Rightarrow> nat \<Rightarrow> build \<Rightarrow> nat \<Rightarrow> build" where
  "visit_column S L V b c =
     (let b1 = foldl (collect_parent S L V c) b [0..<L + V];
          b2 = foldl (record_child S L c) b1 [0..<L + V]
      in b2\<lparr>layers := (layers b2)[length (layers b2) - 1 :=
              (last (layers b2))\<lparr>num := num (last (layers b2)) + 1\<rparr>]\<rparr>)"

definition build_graph :: "bool tensor \<Rightarrow> nat \<Rightarrow> nat \<Rightarrow> build" where
  "build_graph S L V = foldl (visit_column S L V) (init_build L V) [0..<V]"

text \<open>Writing into the \<open>int32\<close> tensors: libtorch checks every index.\<close>

definition put :: "int list \<Rightarrow> nat \<Rightarrow> int \<Rightarrow> error + int list" where
  "put t i x = (if i < length t then Inr (t[i := x]) else Inl Index_out_of_range)"

definition put2 :: "nat \<times> nat \<Rightarrow> int list \<Rightarrow> nat \<Rightarrow> nat \<Rightarrow> int \<Rightarrow> error + int list" where
  "put2 dims t r c x =
     (if r < fst dims \<and> c < snd dims then Inr (t[r * snd dims + c := x])
      else Inl Index_out_of_range)"

text \<open>\<open>for (x : xs) t[idx++] = x;\<close>\<close>

fun put_all :: "int list \<Rightarrow> nat \<Rightarrow> int list \<Rightarrow> error + (int list \<times> nat)" where
  "put_all t i [] = Inr (t, i)"
| "put_all t i (x # xs) =
     (case put t i x of Inl e \<Rightarrow> Inl e | Inr t' \<Rightarrow> put_all t' (Suc i) xs)"

text \<open>The parents data: the loop over \<open>c\<close>, with state \<open>(parents, parents_bases, idx)\<close>.\<close>

fun fill_parents ::
  "int list list \<Rightarrow> nat list \<Rightarrow> int list \<times> int list \<times> nat \<Rightarrow> error + (int list \<times> int list \<times> nat)" where
  "fill_parents pv [] st = Inr st"
| "fill_parents pv (c # cs) (par, bases, i) =
     (case put_all par i (pv ! c) of
        Inl e \<Rightarrow> Inl e
      | Inr (par', i') \<Rightarrow>
          (case put bases (Suc c) (int i') of
             Inl e \<Rightarrow> Inl e
           | Inr bases' \<Rightarrow> fill_parents pv cs (par', bases', i')))"

text \<open>
  The children data: for each row, the loop over the layer buckets \<open>l\<close>, with state
  \<open>(children, children_bases, idx)\<close>; \<open>dims\<close> is the shape of \<open>children_bases\<close>.
\<close>

fun fill_buckets ::
  "int list list list \<Rightarrow> nat \<times> nat \<Rightarrow> nat \<Rightarrow> nat list \<Rightarrow> int list \<times> int list \<times> nat \<Rightarrow>
     error + (int list \<times> int list \<times> nat)" where
  "fill_buckets cv dims r [] st = Inr st"
| "fill_buckets cv dims r (l # ls) (chi, bases, i) =
     (case put_all chi i (cv ! l ! r) of
        Inl e \<Rightarrow> Inl e
      | Inr (chi', i') \<Rightarrow>
          (case put2 dims bases r (Suc l) (int i') of
             Inl e \<Rightarrow> Inl e
           | Inr bases' \<Rightarrow> fill_buckets cv dims r ls (chi', bases', i')))"

fun fill_children ::
  "int list list list \<Rightarrow> nat \<times> nat \<Rightarrow> nat list \<Rightarrow> int list \<times> int list \<times> nat \<Rightarrow>
     error + (int list \<times> int list \<times> nat)" where
  "fill_children cv dims [] st = Inr st"
| "fill_children cv dims (r # rs) (chi, bases, i) =
     (case put2 dims bases r 0 (int i) of
        Inl e \<Rightarrow> Inl e
      | Inr bases' \<Rightarrow>
          (case fill_buckets cv dims r [0..<length cv] (chi, bases', i) of
             Inl e \<Rightarrow> Inl e
           | Inr st' \<Rightarrow> fill_children cv dims rs st'))"

text \<open>
  The latent neighbours of each layer: latent \<open>v\<close> is pushed onto
  \<open>latent_neighbors_vec[l]\<close> for every \<open>l\<close> of its presence range. \<open>std::vector\<close> does not
  check the index; an index outside the vector is undefined behaviour, reported here as
  \<open>Vector_out_of_bounds\<close>.
\<close>

fun push_latent :: "int \<Rightarrow> int list \<Rightarrow> int list list \<times> nat \<Rightarrow> error + (int list list \<times> nat)" where
  "push_latent v [] st = Inr st"
| "push_latent v (l # ls) (lnv, n) =
     (if 0 \<le> l \<and> l < int (length lnv)
      then push_latent v ls (lnv[nat l := lnv ! nat l @ [v]], Suc n)
      else Inl (Vector_out_of_bounds l))"

fun collect_latent_neighbors ::
  "(int \<times> int) list \<Rightarrow> nat \<Rightarrow> nat list \<Rightarrow> int list list \<times> nat \<Rightarrow> error + (int list list \<times> nat)" where
  "collect_latent_neighbors rg L [] st = Inr st"
| "collect_latent_neighbors rg L (r # rs) st =
     (case push_latent (int r - int L) [fst (rg ! r)..snd (rg ! r)] st of
        Inl e \<Rightarrow> Inl e
      | Inr st' \<Rightarrow> collect_latent_neighbors rg L rs st')"

text \<open>
  The latent neighbours data, with state
  \<open>(latent_neighbors, latent_neighbors_bases, layers_vec, idx)\<close>.
\<close>

fun fill_latent_neighbors ::
  "int list list \<Rightarrow> nat list \<Rightarrow> int list \<times> int list \<times> SEMNANLayerData list \<times> nat \<Rightarrow>
     error + (int list \<times> int list \<times> SEMNANLayerData list \<times> nat)" where
  "fill_latent_neighbors lnv [] st = Inr st"
| "fill_latent_neighbors lnv (l # ls) (nbr, bases, lv, i) =
     (case put_all nbr i (lnv ! l) of
        Inl e \<Rightarrow> Inl e
      | Inr (nbr', i') \<Rightarrow>
          if \<not> l < length lv then Inl (Vector_out_of_bounds (int l))
          else
            (case put bases (Suc l) (int i') of
               Inl e \<Rightarrow> Inl e
             | Inr bases' \<Rightarrow>
                 fill_latent_neighbors lnv ls
                   (nbr', bases', lv[l := (lv ! l)\<lparr>lat_width := length (lnv ! l)\<rparr>], i')))"

definition make_structures :: "SEMNANSolver \<Rightarrow> error + SEMNANSolver" where
  "make_structures s =
     (let L = latent_size s; V = visible_size s; total_size = L + V;
          b = build_graph (structure_t s) L V;
          nl = length (layers b)
      in case fill_parents (parents_vec b) [0..<V]
                (replicate (edge_count b) 0, replicate (V + 1) 0, 0) of
           Inl e \<Rightarrow> Inl e
         | Inr (par, par_bases, i1) \<Rightarrow>
        (case fill_children (children_vec b) (total_size, nl) [0..<total_size]
                (replicate (edge_count b) 0, replicate (total_size * nl) 0, 0) of
           Inl e \<Rightarrow> Inl e
         | Inr (chi, chi_bases, i2) \<Rightarrow>
        (case collect_latent_neighbors (ranges b) L [0..<L] (replicate nl [], 0) of
           Inl e \<Rightarrow> Inl e
         | Inr (lnv, latent_neighbors_count) \<Rightarrow>
        (case fill_latent_neighbors lnv [0..<length lnv]
                (replicate latent_neighbors_count 0, replicate (length lnv + 1) 0,
                 layers b, 0) of
           Inl e \<Rightarrow> Inl e
         | Inr (nbr, nbr_bases, lv, i3) \<Rightarrow>
             Inr (s\<lparr>parents := par, parents_bases := par_bases,
                    children := chi, children_bases := chi_bases,
                    latent_neighbors := nbr, latent_neighbors_bases := nbr_bases,
                    latent_presence_range := ranges b, layers_vec := lv\<rparr>)))))"

subsection \<open>The constructor\<close>

text \<open>
  \<open>init_parameters\<close>, then \<open>make_structures\<close>. When the second fails, the members made by the
  first go with the object: the heap is the caller's again. The \<open>SEMNANDeviceData\<close> made
  last only bundles pointers to the tensors above for the kernels; it is not modelled.
\<close>

definition new_SEMNANSolver ::
  "heap \<Rightarrow> bool tensor \<Rightarrow> real tensor \<Rightarrow> Dtype \<Rightarrow> (nat \<Rightarrow> real) \<Rightarrow> (error + SEMNANSolver) \<times> heap" where
  "new_SEMNANSolver h structure parameters dt noise =
     (case init_parameters h structure parameters dt noise of
        (Inl e, h') \<Rightarrow> (Inl e, h')
      | (Inr s, h') \<Rightarrow>
          (case make_structures s of
             Inl e \<Rightarrow> (Inl e, h)
           | Inr s' \<Rightarrow> (Inr s', h')))"

text \<open>
  The constructor as the Python binding calls it (the function given to \<open>py::init\<close>): the
  parameters are optional, and absent parameters are handed on as a default-constructed
  tensor. The conversion of the Python object to a \<open>torch::Dtype\<close> is not modelled.
\<close>

definition py_init ::
  "heap \<Rightarrow> bool tensor \<Rightarrow> real tensor option \<Rightarrow> Dtype \<Rightarrow> (nat \<Rightarrow> real) \<Rightarrow>
     (error + SEMNANSolver) \<times> heap" where
  "py_init h structure parameters dt noise =
     new_SEMNANSolver h structure
       (case parameters of Some p \<Rightarrow> p | None \<Rightarrow> undefined_tensor) dt noise"

subsection \<open>What the specification says, for comparison\<close>

text \<open>
  The losses and the gradient seed as the specification words them, from the sample
  covariance \<open>S\<close> and the visible covariance \<open>C\<close> themselves (no cache):
  \<open>proxyLoss = trace(S\<^sup>-\<^sup>1 C) - logDet(C)\<close>, \<open>klLoss = (proxyLoss - V + logDet(S)) / 2\<close> and the
  seed \<open>S\<^sup>-\<^sup>1 - C\<^sup>-\<^sup>1\<close>.
\<close>

definition spec_proxyLoss :: "real tensor \<Rightarrow> real tensor \<Rightarrow> error + real" where
  "spec_proxyLoss S C =
     (case torch_inverse S of
        Inl e \<Rightarrow> Inl e
      | Inr si \<Rightarrow>
          (case torch_mm si C of
             Inl e \<Rightarrow> Inl e
           | Inr m \<Rightarrow>
               (case torch_logdet C of
                  Inl e \<Rightarrow> Inl e
                | Inr ld \<Rightarrow> Inr (torch_trace m - item ld))))"

definition spec_klLoss :: "nat \<Rightarrow> real tensor \<Rightarrow> real tensor \<Rightarrow> error + real" where
  "spec_klLoss V S C =
     (case spec_proxyLoss S C of
        Inl e \<Rightarrow> Inl e
      | Inr px \<Rightarrow>
          (case torch_logdet S of
             Inl e \<Rightarrow> Inl e
           | Inr ld \<Rightarrow> Inr ((px - real V + item ld) / 2)))"

definition spec_gradient_seed :: "real tensor \<Rightarrow> real tensor \<Rightarrow> error + real list" where
  "spec_gradient_seed S C =
     (case torch_inverse S of
        Inl e \<Rightarrow> Inl e
      | Inr si \<Rightarrow>
          (case torch_inverse C of
             Inl e \<Rightarrow> Inl e
           | Inr ci \<Rightarrow> Inr (map2 (-) (elems si) (elems ci))))"

text \<open>
  The malformed inputs the specification lists. For the constructor: a structure that
  is not two-dimensional, has no element or has fewer rows than columns; parameters
  that are supplied with another shape than the structure; a precision other than
  float and double. For the sample covariance: not two-dimensional, not square, or not
  of extent \<open>V\<close>.
\<close>

definition structure_violation :: "bool tensor \<Rightarrow> real tensor option \<Rightarrow> Dtype \<Rightarrow> bool" where
  "structure_violation st pa dt \<longleftrightarrow>
     dim st \<noteq> 2 \<or> numel st = 0 \<or> (dim st = 2 \<and> sizes st ! 0 < sizes st ! 1) \<or>
     (case pa of None \<Rightarrow> False | Some p \<Rightarrow> sizes p \<noteq> sizes st) \<or>
     (dt \<noteq> kFloat \<and> dt \<noteq> kDouble)"

definition sample_covariance_violation :: "nat \<Rightarrow> real tensor \<Rightarrow> bool" where
  "sample_covariance_violation V sc \<longleftrightarrow>
     dim sc \<noteq> 2 \<or> (dim sc = 2 \<and> (sizes sc ! 0 \<noteq> sizes sc ! 1 \<or> sizes sc ! 0 \<noteq> V))"

text \<open>
  The malformed inputs of the constructor with two of them narrowed: fewer rows than
  columns counts for a number of columns that fits \<open>int32_t\<close>, and another shape counts
  for supplied parameters that have an element.
\<close>

definition checked_violation :: "bool tensor \<Rightarrow> real tensor option \<Rightarrow> Dtype \<Rightarrow> bool" where
  "checked_violation st pa dt \<longleftrightarrow>
     dim st \<noteq> 2 \<or> numel st = 0 \<or>
     (dim st = 2 \<and> sizes st ! 0 < sizes st ! 1 \<and> int (sizes st ! 1) < 2147483648) \<or>
     (case pa of None \<Rightarrow> False | Some p \<Rightarrow> numel p \<noteq> 0 \<and> sizes p \<noteq> sizes st) \<or>
     (dt \<noteq> kFloat \<and> dt \<noteq> kDouble)"

subsection \<open>Notions for the statements about the compiled graph\<close>

text \<open>
  A layer record stands for the visible nodes \<open>base, \<dots>, base + num - 1\<close>; layer 0 is the
  sentinel. \<open>in_layer lv k n\<close>: visible node \<open>n\<close> is assigned to the layer at position \<open>k\<close>.
\<close>

definition in_layer :: "SEMNANLayerData list \<Rightarrow> nat \<Rightarrow> nat \<Rightarrow> bool" where
  "in_layer lv k n \<longleftrightarrow>
     1 \<le> k \<and> k < length lv \<and> base (lv ! k) \<le> int n \<and> int n < base (lv ! k) + int (num (lv ! k))"

text \<open>
  The column order respects a topological order: a visible parent (row \<open>r \<ge> L\<close>, node
  \<open>r - L\<close>) of the visible node \<open>c\<close> comes before \<open>c\<close>.
\<close>

definition topological :: "bool tensor \<Rightarrow> nat \<Rightarrow> nat \<Rightarrow> bool" where
  "topological S L V \<longleftrightarrow> (\<forall>c\<in>{0..<V}. \<forall>r\<in>{0..<L + V}. at2 S r c \<longrightarrow> r < L + c)"

text \<open>Row \<open>r\<close> of the structure is all false: node \<open>r\<close> has no outgoing edge.\<close>

definition childless :: "bool tensor \<Rightarrow> nat \<Rightarrow> nat \<Rightarrow> bool" where
  "childless S V r \<longleftrightarrow> (\<forall>c\<in>{0..<V}. \<not> at2 S r c)"

text \<open>The number of edges: the true entries of the structure.\<close>

definition edge_total :: "bool tensor \<Rightarrow> nat" where
  "edge_total S = length (filter (\<lambda>x. x) (elems S))"

text \<open>
  The first loop as the specification words its start: the boundary marker initially
  below the lowest possible parent index, which is \<open>-L\<close>.
\<close>

definition spec_init_build :: "nat \<Rightarrow> nat \<Rightarrow> build" where
  "spec_init_build L V = (init_build L V)\<lparr>layer_max := - int L - 1\<rparr>"

definition spec_build_graph :: "bool tensor \<Rightarrow> nat \<Rightarrow> nat \<Rightarrow> build" where
  "spec_build_graph S L V = foldl (visit_column S L V) (spec_init_build L V) [0..<V]"

subsection \<open>Invariants of the loops\<close>

text \<open>
  The first \<open>q\<close> entries of an offset array are written, in order, and the last of them
  is the running index \<open>i\<close>.
\<close>

definition filled :: "nat \<Rightarrow> nat \<Rightarrow> int list \<Rightarrow> bool" where
  "filled q i bases \<longleftrightarrow>
     q \<le> length bases \<and> sorted (take q bases) \<and> (0 < q \<longrightarrow> bases ! (q - 1) = int i)"

text \<open>The layers opened while one column is scanned, and \<open>layers_vec.back().num++\<close>.\<close>

definition new_layers :: "nat \<Rightarrow> nat \<Rightarrow> nat \<Rightarrow> SEMNANLayerData list" where
  "new_layers m c n = map (\<lambda>i. new_SEMNANLayerData (int (m + i)) (int c)) [0..<n]"

definition count_last :: "SEMNANLayerData list \<Rightarrow> SEMNANLayerData list" where
  "count_last lv = lv[length lv - 1 := (last lv)\<lparr>num := num (last lv) + 1\<rparr>]"

text \<open>
  After the columns below \<open>c\<close>: the layer at position \<open>k\<close> has index \<open>k\<close>, the last layer
  ends at \<open>c\<close>, and the layers assign exactly the nodes below \<open>c\<close>, each to one layer.
\<close>

definition layers_inv :: "nat \<Rightarrow> SEMNANLayerData list \<Rightarrow> bool" where
  "layers_inv c lv \<longleftrightarrow>
     2 \<le> length lv \<and> (\<forall>k. 1 \<le> k \<and> k < length lv \<longrightarrow> idx (lv ! k) = int k) \<and>
     base (last lv) + int (num (last lv)) = int c \<and>
     (\<forall>k m. in_layer lv k m \<longrightarrow> m < c) \<and>
     (\<forall>m<c. \<exists>k. in_layer lv k m \<and> (\<forall>j. in_layer lv j m \<longrightarrow> j = k))"

text \<open>The parent indices of column \<open>c\<close>, ascending.\<close>

definition parents_of :: "bool tensor \<Rightarrow> nat \<Rightarrow> nat \<Rightarrow> nat \<Rightarrow> int list" where
  "parents_of S L V c = map (\<lambda>r. int r - int L) (filter (\<lambda>r. at2 S r c) [0..<L + V])"

text \<open>
  The presence range \<open>\<rho>\<close> of row \<open>r\<close> after the columns below \<open>c\<close>: unset while the row has
  no child there; otherwise its ends, plus one, are layers of children of the row and
  every child's layer lies between them.
\<close>

definition range_inv :: "bool tensor \<Rightarrow> nat \<Rightarrow> SEMNANLayerData list \<Rightarrow> nat \<Rightarrow> int \<times> int \<Rightarrow> bool" where
  "range_inv S c lv r \<rho> \<longleftrightarrow>
     (if \<forall>c'<c. \<not> at2 S r c' then \<rho> = (- 1, - 1)
      else 0 \<le> fst \<rho> \<and> 0 \<le> snd \<rho> \<and>
        (\<exists>c'<c. at2 S r c' \<and> in_layer lv (nat (fst \<rho>) + 1) c') \<and>
        (\<exists>c'<c. at2 S r c' \<and> in_layer lv (nat (snd \<rho>) + 1) c') \<and>
        (\<forall>c'<c. at2 S r c' \<longrightarrow>
           (\<forall>k. in_layer lv k c' \<longrightarrow> fst \<rho> + 1 \<le> int k \<and> int k \<le> snd \<rho> + 1)))"

definition bucket_total :: "int list list list \<Rightarrow> nat" where
  "bucket_total cv = sum_list (map (\<lambda>bk. sum_list (map length bk)) cv)"

text \<open>The state of the first loop of \<open>make_structures\<close> after the columns below \<open>c\<close>.\<close>

definition graph_inv :: "bool tensor \<Rightarrow> nat \<Rightarrow> nat \<Rightarrow> nat \<Rightarrow> build \<Rightarrow> bool" where
  "graph_inv S L V c b \<longleftrightarrow>
     length (ranges b) = L \<and> children_vec b \<noteq> [] \<and>
     length (children_vec b) + 1 = length (layers b) \<and>
     (\<forall>bk\<in>set (children_vec b). length bk = L + V) \<and>
     layers_inv c (layers b) \<and>
     (layer_max b = - 1 \<or> layer_max b = base (last (layers b))) \<and>
     parents_vec b = map (\<lambda>c'. if c' < c then parents_of S L V c' else []) [0..<V] \<and>
     edge_count b = sum_list (map (\<lambda>c'. length (parents_of S L V c')) [0..<c]) \<and>
     bucket_total (children_vec b) = edge_count b \<and>
     (\<forall>r<L. range_inv S c (layers b) r (ranges b ! r))"

text \<open>The visible parents of the columns below \<open>c\<close> lie in earlier layers.\<close>

definition order_inv :: "bool tensor \<Rightarrow> nat \<Rightarrow> nat \<Rightarrow> nat \<Rightarrow> SEMNANLayerData list \<Rightarrow> bool" where
  "order_inv S L V c lv \<longleftrightarrow>
     (\<forall>c'<c. \<forall>r. L \<le> r \<and> r < L + V \<and> at2 S r c' \<longrightarrow>
        (\<forall>i j. in_layer lv i c' \<and> in_layer lv j (r - L) \<longrightarrow> j < i))"

text \<open>The rows among \<open>rs\<close> whose presence range covers \<open>l\<close>.\<close>

definition present :: "(int \<times> int) list \<Rightarrow> nat \<Rightarrow> nat list \<Rightarrow> nat list" where
  "present rg l rs = filter (\<lambda>r. fst (rg ! r) \<le> int l \<and> int l \<le> snd (rg ! r)) rs"

subsection \<open>Small inputs\<close>

definition one_by_one :: "'a \<Rightarrow> 'a tensor" where
  "one_by_one x = \<lparr>sizes = [1, 1], elems = [x], is_cuda = True\<rparr>"

text \<open>The structure of one visible node without parents, and the solver built from it.\<close>

definition unit_structure :: "bool tensor" where
  "unit_structure = one_by_one False"

definition unit_solver :: SEMNANSolver where
  "unit_solver =
     \<lparr>structure_t = \<lparr>sizes = [1, 1], elems = [False], is_cuda = True\<rparr>,
      lambda = \<lparr>storage = 2, storage_offset = 0, shape = [1, 1], strides = [1, 1]\<rparr>,
      weights = \<lparr>storage = 0, storage_offset = 0, shape = [1, 1], strides = [1, 1]\<rparr>,
      weights_grad = \<lparr>storage = 3, storage_offset = 0, shape = [1, 1], strides = [1, 1]\<rparr>,
      covariance = \<lparr>storage = 1, storage_offset = 0, shape = [1, 1], strides = [1, 1]\<rparr>,
      covariance_grad =
        \<lparr>storage = 4, storage_offset = 0, shape = [2, 1, 1], strides = [1, 1, 1]\<rparr>,
      visible_covariance =
        \<lparr>storage = 1, storage_offset = 0, shape = [1, 1], strides = [1, 1]\<rparr>,
      visible_covariance_grad =
        \<lparr>storage = 4, storage_offset = 0, shape = [2, 1, 1], strides = [1, 1, 1]\<rparr>,
      sample_covariance = \<lparr>sizes = [0], elems = [], is_cuda = False\<rparr>,
      sample_covariance_inv = \<lparr>sizes = [0], elems = [], is_cuda = False\<rparr>,
      sample_covariance_logdet = \<lparr>sizes = [0], elems = [], is_cuda = False\<rparr>,
      parents = [], parents_bases = [0, 0], children = [], children_bases = [0, 0],
      latent_neighbors = [], latent_neighbors_bases = [0, 0, 0],
      latent_presence_range = [],
      layers_vec = [\<lparr>idx = 0, base = 0, num = 0, lat_width = 0\<rparr>,
                    \<lparr>idx = 1, base = 0, num = 1, lat_width = 0\<rparr>],
      visible_size = 1, latent_size = 0, dtype = kFloat\<rparr>"

text \<open>
  The structure of one latent and one visible node with the edge between them, and the
  solver built from it.
\<close>

definition edge_structure :: "bool tensor" where
  "edge_structure = matrix_tensor 2 1 (\<lambda>i j. i = 0)"

definition edge_solver :: SEMNANSolver where
  "edge_solver =
     \<lparr>structure_t = \<lparr>sizes = [2, 1], elems = [True, False], is_cuda = True\<rparr>,
      lambda = \<lparr>storage = 2, storage_offset = 0, shape = [2, 1], strides = [1, 1]\<rparr>,
      weights = \<lparr>storage = 0, storage_offset = 0, shape = [2, 1], strides = [1, 1]\<rparr>,
      weights_grad = \<lparr>storage = 3, storage_offset = 0, shape = [2, 1], strides = [1, 1]\<rparr>,
      covariance = \<lparr>storage = 1, storage_offset = 0, shape = [2, 1], strides = [1, 1]\<rparr>,
      covariance_grad =
        \<lparr>storage = 4, storage_offset = 0, shape = [2, 2, 1], strides = [2, 1, 1]\<rparr>,
      visible_covariance =
        \<lparr>storage = 1, storage_offset = 1, shape = [1, 1], strides = [1, 1]\<rparr>,
      visible_covariance_grad =
        \<lparr>storage = 4, storage_offset = 1, shape = [2, 1, 1], strides = [2, 1, 1]\<rparr>,
      sample_covariance = \<lparr>sizes = [0], elems = [], is_cuda = False\<rparr>,
      sample_covariance_inv = \<lparr>sizes = [0], elems = [], is_cuda = False\<rparr>,
      sample_covariance_logdet = \<lparr>sizes = [0], elems = [], is_cuda = False\<rparr>,
      parents = [- 1], parents_bases = [0, 1], children = [0],
      children_bases = [0, 0, 1, 1, 1, 1], latent_neighbors = [- 1],
      latent_neighbors_bases = [0, 0, 1, 1], latent_presence_range = [(1, 1)],
      layers_vec = [\<lparr>idx = 0, base = 0, num = 0, lat_width = 0\<rparr>,
                    \<lparr>idx = 1, base = 0, num = 0, lat_width = 1\<rparr>,
                    \<lparr>idx = 2, base = 0, num = 1, lat_width = 0\<rparr>],
      visible_size = 1, latent_size = 1, dtype = kFloat\<rparr>"

text \<open>
  Two latent nodes and one visible node; the first latent is the parent of the visible
  node, the second latent has no child.
\<close>

definition orphan_structure :: "bool tensor" where
  "orphan_structure = matrix_tensor 3 1 (\<lambda>i j. i = 0)"

text \<open>
  A structure of one row and \<open>2\<^sup>3\<^sup>1 + 2\<close> columns, without an edge; and supplied parameters
  of shape \<open>[0, 7]\<close>, which have no element.
\<close>

definition wide_structure :: "bool tensor" where
  "wide_structure =
     \<lparr>sizes = [1, 2147483650], elems = replicate 2147483650 False, is_cuda = True\<rparr>"

definition empty_parameters :: "real tensor" where
  "empty_parameters = \<lparr>sizes = [0, 7], elems = [], is_cuda = True\<rparr>"

text \<open>Two latent and two visible nodes; latent \<open>i\<close> is the parent of visible node \<open>i\<close>.\<close>

definition diagonal_structure :: "bool tensor" where
  "diagonal_structure = matrix_tensor 4 2 (\<lambda>i j. i = j)"

text \<open>
  One latent node and the visible nodes 0, 1, 2, with the edges latent \<open>\<rightarrow>\<close> 0, 0 \<open>\<rightarrow>\<close> 1,
  latent \<open>\<rightarrow>\<close> 2 and 1 \<open>\<rightarrow>\<close> 2; the solver built from it and the heap it leaves.
\<close>

definition chain_structure :: "bool tensor" where
  "chain_structure =
     \<lparr>sizes = [4, 3],
      elems = [True, False, True,  False, True, False,  False, False, True,
               False, False, False],
      is_cuda = True\<rparr>"

definition chain_solver :: SEMNANSolver where
  "chain_solver =
     projr (fst (new_SEMNANSolver [] chain_structure undefined_tensor kFloat (\<lambda>k. 1)))"

definition chain_heap :: heap where
  "chain_heap = snd (new_SEMNANSolver [] chain_structure undefined_tensor kFloat (\<lambda>k. 1))"

text \<open>
  The object after the caller has set the sample covariance \<open>M1\<close>, queried the loss, and
  set the sample covariance \<open>M2\<close>.
\<close>

definition replace_after_query ::
  "real tensor \<Rightarrow> real tensor \<Rightarrow> heap \<Rightarrow> SEMNANSolver \<Rightarrow> SEMNANSolver" where
  "replace_after_query M1 M2 h s =
     snd (set_sample_covariance M2
       (snd (kullback_leibler_loss h (snd (set_sample_covariance M1 s)))))"

section \<open>Properties\<close>

lemmas tensor_defs = numel_def dim_def undefined_tensor_def at2_def matrix_tensor_def
  scalar_tensor_def rows_of_def cofactor_def torch_inverse_def torch_logdet_def torch_mm_def
  torch_trace_def item_def one_by_one_def

lemmas heap_defs = alloc_def zeros_def slice_from_def select0_def addr2_def read2_def
  to_tensor_def inplace2_def copy_inplace_def subtract_inplace_def

lemmas loss_defs = set_sample_covariance_def get_sample_covariance_inv_def
  get_sample_covariance_logdet_def kullback_leibler_proxy_loss_def kullback_leibler_loss_def
  kullback_leibler_loss_backward_def num_layers_def get_covariance_def
  get_visible_covariance_def replace_after_query_def spec_proxyLoss_def spec_klLoss_def
  spec_gradient_seed_def

subsection \<open>The two small solvers\<close>

lemma new_unit_solver:
  "new_SEMNANSolver [] unit_structure undefined_tensor kFloat (\<lambda>k. 1) =
     (Inr unit_solver, [[0], [0], [0], [0], [0, 0]])"
  by code_simp

lemma new_edge_solver:
  "new_SEMNANSolver [] edge_structure undefined_tensor kFloat (\<lambda>k. 1) =
     (Inr edge_solver, [[1, 0], [0, 0], [0, 0], [0, 0], [0, 0, 0, 0]])"
  by code_simp

subsection \<open>The cache of the sample covariance\<close>

text \<open>
  While the cache is empty, the losses are the ones the specification words, computed
  from the sample covariance the object holds.
\<close>

lemma proxy_loss_on_empty_cache:
  assumes "numel (sample_covariance_inv s) = 0"
  shows "fst (kullback_leibler_proxy_loss h s) =
         spec_proxyLoss (sample_covariance s) (to_tensor h (visible_covariance s))"
  using assms
  by (simp add: kullback_leibler_proxy_loss_def get_sample_covariance_inv_def
      spec_proxyLoss_def split: sum.splits)

text \<open>
  C1. Replacing the sample covariance is claimed to invalidate the cached inverse and
  log-determinant. In the code \<open>set_sample_covariance\<close> stores the matrix and nothing
  else: on the solver of one visible node, after the sample covariance \<open>[[1]]\<close> was set
  and the loss queried, setting \<open>[[2]]\<close> leaves the inverse and the log-determinant of
  \<open>[[1]]\<close> in the cache, and the getters the losses use return them.
\<close>

theorem stale_cache_after_replacement:
  "case new_SEMNANSolver [] unit_structure undefined_tensor kFloat (\<lambda>k. 1) of
     (Inl e, h0) \<Rightarrow> False
   | (Inr s0, h0) \<Rightarrow>
       (case copy_inplace h0 (get_visible_covariance s0) (one_by_one 2) of
          Inl e \<Rightarrow> False
        | Inr h1 \<Rightarrow>
            (let s3 = replace_after_query (one_by_one 1) (one_by_one 2) h1 s0 in
               sample_covariance s3 = one_by_one 2 \<and>
               fst (get_sample_covariance_inv s3) = torch_inverse (one_by_one 1) \<and>
               fst (get_sample_covariance_inv s3) \<noteq> torch_inverse (one_by_one 2) \<and>
               fst (get_sample_covariance_logdet s3) = torch_logdet (one_by_one 1) \<and>
               fst (get_sample_covariance_logdet s3) \<noteq> torch_logdet (one_by_one 2)))"
  unfolding new_unit_solver
  by (simp add: unit_solver_def tensor_defs heap_defs loss_defs Let_def)

text \<open>
  C3. The losses are claimed to be \<open>trace(S\<^sup>-\<^sup>1 C) - logDet(C)\<close> and
  \<open>(proxyLoss - V + logDet(S)) / 2\<close> in every state with a sample covariance \<open>S\<close>. In the
  state reached above (sample covariance \<open>[[2]]\<close>, cache of \<open>[[1]]\<close>), with the visible
  covariance \<open>[[3]]\<close>, the code returns \<open>3 - ln 3\<close> and \<open>(3 - ln 3 - 1 + 0) / 2\<close>; the
  formulas give \<open>3/2 - ln 3\<close> and \<open>(3/2 - ln 3 - 1 + ln 2) / 2\<close>.
\<close>

theorem loss_after_replacement:
  "case new_SEMNANSolver [] unit_structure undefined_tensor kFloat (\<lambda>k. 1) of
     (Inl e, h0) \<Rightarrow> False
   | (Inr s0, h0) \<Rightarrow>
       (case copy_inplace h0 (get_visible_covariance s0) (one_by_one 3) of
          Inl e \<Rightarrow> False
        | Inr h1 \<Rightarrow>
            (let s3 = replace_after_query (one_by_one 1) (one_by_one 2) h1 s0;
                 S = sample_covariance s3;
                 C = to_tensor h1 (get_visible_covariance s3) in
               S = one_by_one 2 \<and> C = one_by_one 3 \<and>
               fst (kullback_leibler_proxy_loss h1 s3) = Inr (3 - ln 3) \<and>
               spec_proxyLoss S C = Inr (3 / 2 - ln 3) \<and>
               fst (kullback_leibler_proxy_loss h1 s3) \<noteq> spec_proxyLoss S C \<and>
               fst (kullback_leibler_loss h1 s3) = Inr ((3 - ln 3 - 1 + 0) / 2) \<and>
               spec_klLoss (visible_size s3) S C = Inr ((3 / 2 - ln 3 - 1 + ln 2) / 2) \<and>
               fst (kullback_leibler_loss h1 s3) \<noteq> spec_klLoss (visible_size s3) S C))"
proof -
  have "ln (2::real) \<le> 2 - 1"
    by (rule ln_le_minus_one) simp
  then have "ln (2::real) * 2 \<noteq> 3"
    by simp
  then show ?thesis
    unfolding new_unit_solver
    by (simp add: unit_solver_def tensor_defs heap_defs loss_defs Let_def)
qed

text \<open>
  C4. The loss is claimed to be 0 whenever the visible covariance equals the sample
  covariance. In the state reached above, with the visible covariance \<open>[[2]]\<close> equal to
  the sample covariance, the code returns \<open>(1 - ln 2) / 2\<close>, which is not 0.
\<close>

theorem loss_of_equal_covariances_after_replacement:
  "case new_SEMNANSolver [] unit_structure undefined_tensor kFloat (\<lambda>k. 1) of
     (Inl e, h0) \<Rightarrow> False
   | (Inr s0, h0) \<Rightarrow>
       (case copy_inplace h0 (get_visible_covariance s0) (one_by_one 2) of
          Inl e \<Rightarrow> False
        | Inr h1 \<Rightarrow>
            (let s3 = replace_after_query (one_by_one 1) (one_by_one 2) h1 s0 in
               to_tensor h1 (get_visible_covariance s3) = sample_covariance s3 \<and>
               fst (kullback_leibler_loss h1 s3) = Inr ((1 - ln 2) / 2) \<and>
               fst (kullback_leibler_loss h1 s3) \<noteq> Inr 0 \<and>
               spec_klLoss (visible_size s3) (sample_covariance s3)
                 (to_tensor h1 (get_visible_covariance s3)) = Inr 0))"
proof -
  have "ln (2::real) \<noteq> 1"
    using ln_eq_minus_one [of "2::real"] by auto
  then show ?thesis
    unfolding new_unit_solver
    by (simp add: unit_solver_def tensor_defs heap_defs loss_defs Let_def)
qed

text \<open>
  C5. The gradient seed is claimed to be \<open>S\<^sup>-\<^sup>1 - C\<^sup>-\<^sup>1\<close>, written to slab
  \<open>(num_layers + 1) mod 2\<close> of the covariance gradient. In the state reached above, with
  the visible covariance \<open>[[2]]\<close>, the code writes \<open>1 - 1/2\<close> into slab 1 (the inverse of
  \<open>[[1]]\<close> from the cache, minus a fresh inverse of the visible covariance); the formula
  gives 0.
\<close>

theorem gradient_seed_after_replacement:
  "case new_SEMNANSolver [] unit_structure undefined_tensor kFloat (\<lambda>k. 1) of
     (Inl e, h0) \<Rightarrow> False
   | (Inr s0, h0) \<Rightarrow>
       (case copy_inplace h0 (get_visible_covariance s0) (one_by_one 2) of
          Inl e \<Rightarrow> False
        | Inr h1 \<Rightarrow>
            (let s3 = replace_after_query (one_by_one 1) (one_by_one 2) h1 s0 in
               case kullback_leibler_loss_backward h1 s3 of
                 (Inl e, s4, h2) \<Rightarrow> False
               | (Inr u, s4, h2) \<Rightarrow>
                   (num_layers s3 + 1) mod 2 = 1 \<and>
                   h2 ! storage (covariance_grad s4) = [0, 1 / 2] \<and>
                   spec_gradient_seed (sample_covariance s3)
                     (to_tensor h1 (get_visible_covariance s3)) = Inr [0]))"
  unfolding new_unit_solver
  by (simp add: unit_solver_def tensor_defs heap_defs loss_defs Let_def)

subsection \<open>The buffers made by the constructor\<close>

lemma make_structures_keeps:
  assumes "make_structures s = Inr s'"
  shows "covariance s' = covariance s" "visible_covariance s' = visible_covariance s"
    "latent_size s' = latent_size s" "visible_size s' = visible_size s"
    "structure_t s' = structure_t s" "covariance_grad s' = covariance_grad s"
    "visible_covariance_grad s' = visible_covariance_grad s"
  using assms by (auto simp: make_structures_def Let_def split: sum.splits prod.splits)

lemma int32_id: "- 2147483648 \<le> x \<Longrightarrow> x < 2147483648 \<Longrightarrow> int32 x = x"
  by (simp add: int32_def)

lemma init_checks_rejects:
  assumes "checked_violation st pa dt"
  shows "if dim st < 2
         then init_checks st (case pa of Some p \<Rightarrow> p | None \<Rightarrow> undefined_tensor) dt =
                Inl Dimension_out_of_range
         else \<exists>m. init_checks st (case pa of Some p \<Rightarrow> p | None \<Rightarrow> undefined_tensor) dt =
                Inl (Check_failed m)"
proof (cases "dim st < 2")
  case True
  then show ?thesis by (simp add: init_checks_def)
next
  case False
  let ?p = "case pa of Some p \<Rightarrow> p | None \<Rightarrow> undefined_tensor"
  have neg: "int32 (int (sizes st ! 0) - int32 (int (sizes st ! 1))) < 0"
    if "sizes st ! 0 < sizes st ! 1" "int (sizes st ! 1) < 2147483648"
  proof -
    from that have "int32 (int (sizes st ! 1)) = int (sizes st ! 1)"
      by (intro int32_id) auto
    moreover from that have "int32 (int (sizes st ! 0) - int (sizes st ! 1)) =
        int (sizes st ! 0) - int (sizes st ! 1)"
      by (intro int32_id) auto
    ultimately show ?thesis using that by simp
  qed
  have par: "\<not> (numel ?p = 0 \<or> sizes ?p = sizes st)"
    if "case pa of None \<Rightarrow> False | Some p \<Rightarrow> numel p \<noteq> 0 \<and> sizes p \<noteq> sizes st"
    using that by (cases pa) auto
  from assms False neg par have "\<exists>m. init_checks st ?p dt = Inl (Check_failed m)"
    unfolding checked_violation_def init_checks_def Let_def
    by (auto simp: numel_def)
  with False show ?thesis by simp
qed

lemma init_parameters_in_range:
  assumes "init_parameters h st pa dt noise = (Inr s, h')"
  shows "dim st = 2" and "sizes st ! 1 \<le> sizes st ! 0"
    and "init_checks st pa dt = Inr (int (sizes st ! 1), int (sizes st ! 0) - int (sizes st ! 1))"
    and "int (sizes st ! 0) < 2147483648" and "int (sizes st ! 1) < 2147483648"
proof -
  from assms obtain v l where c: "init_checks st pa dt = Inr (v, l)"
    and f: "int (sizes st ! 0) < 2147483648" "int (sizes st ! 1) < 2147483648"
    by (auto simp: init_parameters_def split: sum.splits prod.splits if_splits)
  from f show "int (sizes st ! 0) < 2147483648" "int (sizes st ! 1) < 2147483648" .
  from c show d: "dim st = 2"
    by (auto simp: init_checks_def Let_def split: if_splits)
  from f have v: "int32 (int (sizes st ! 1)) = int (sizes st ! 1)"
    by (intro int32_id) auto
  from f have l: "int32 (int (sizes st ! 0) - int (sizes st ! 1)) =
      int (sizes st ! 0) - int (sizes st ! 1)"
    by (intro int32_id) auto
  from c v l show le: "sizes st ! 1 \<le> sizes st ! 0"
    by (auto simp: init_checks_def Let_def split: if_splits)
  from c v l show "init_checks st pa dt =
      Inr (int (sizes st ! 1), int (sizes st ! 0) - int (sizes st ! 1))"
    by (auto simp: init_checks_def Let_def split: if_splits)
qed

text \<open>
  The model ends with \<open>Beyond_int32\<close> exactly when every check has passed and an extent
  of the structure does not fit \<open>int32_t\<close>.
\<close>

lemma init_parameters_beyond_int32:
  "fst (init_parameters h st pa dt noise) = Inl Beyond_int32 \<longleftrightarrow>
     (\<exists>v l. init_checks st pa dt = Inr (v, l)) \<and>
     \<not> (int (sizes st ! 0) < 2147483648 \<and> int (sizes st ! 1) < 2147483648)"
proof (cases "init_checks st pa dt")
  case (Inl e)
  then have "e \<noteq> Beyond_int32"
    by (auto simp: init_checks_def Let_def split: if_splits)
  with Inl show ?thesis by (simp add: init_parameters_def)
next
  case (Inr p)
  then show ?thesis
    by (cases p) (simp add: init_parameters_def Let_def split: prod.splits)
qed

lemma init_parameters_views:
  assumes "init_parameters h st pa dt noise = (Inr s, h')"
  shows "sizes st = [latent_size s + visible_size s, visible_size s]"
    and "covariance s = \<lparr>storage = Suc (length h), storage_offset = 0,
           shape = [latent_size s + visible_size s, visible_size s],
           strides = [visible_size s, 1]\<rparr>"
    and "visible_covariance s = \<lparr>storage = Suc (length h),
           storage_offset = latent_size s * visible_size s,
           shape = [visible_size s, visible_size s], strides = [visible_size s, 1]\<rparr>"
    and "h' ! Suc (length h) = replicate ((latent_size s + visible_size s) * visible_size s) 0"
    and "structure_t s = st"
proof -
  note r = init_parameters_in_range [OF assms]
  from r(1) obtain a b where ab: "sizes st = [a, b]"
    unfolding dim_def by (cases "sizes st"; cases "tl (sizes st)") auto
  with r(2) have ba: "b \<le> a" by simp
  from r(3) ab have c: "init_checks st pa dt = Inr (int b, int a - int b)" by simp
  from r(4,5) ab have f: "int a < 2147483648" "int b < 2147483648" by simp_all
  from assms c f ab ba show "sizes st = [latent_size s + visible_size s, visible_size s]"
    by (auto simp: init_parameters_def heap_defs Let_def nat_diff_distrib')
  from assms c f ab ba show "covariance s = \<lparr>storage = Suc (length h), storage_offset = 0,
           shape = [latent_size s + visible_size s, visible_size s],
           strides = [visible_size s, 1]\<rparr>"
    by (auto simp: init_parameters_def heap_defs Let_def nat_diff_distrib')
  from assms c f ab ba show "visible_covariance s = \<lparr>storage = Suc (length h),
           storage_offset = latent_size s * visible_size s,
           shape = [visible_size s, visible_size s], strides = [visible_size s, 1]\<rparr>"
    by (auto simp: init_parameters_def heap_defs Let_def nat_diff_distrib')
  from assms c f ab ba
  show "h' ! Suc (length h) = replicate ((latent_size s + visible_size s) * visible_size s) 0"
    by (auto simp: init_parameters_def heap_defs Let_def nth_append nat_diff_distrib')
  from assms c show "structure_t s = st"
    by (auto simp: init_parameters_def heap_defs Let_def split: if_splits)
qed

text \<open>
  C2, as claimed: the covariance is \<open>(L+V) \<times> (L+V)\<close>. For one latent and one visible node
  the constructor makes a covariance of shape \<open>[2, 1]\<close>, not \<open>[2, 2]\<close>.
\<close>

theorem covariance_not_square:
  "case new_SEMNANSolver [] edge_structure undefined_tensor kFloat (\<lambda>k. 1) of
     (Inl e, h) \<Rightarrow> False
   | (Inr s, h) \<Rightarrow>
       latent_size s = 1 \<and> visible_size s = 1 \<and> shape (get_covariance s) = [2, 1] \<and>
       shape (get_covariance s) \<noteq>
         [latent_size s + visible_size s, latent_size s + visible_size s]"
  unfolding new_edge_solver by (simp add: edge_solver_def get_covariance_def)

text \<open>
  C2, amended: for every construction that succeeds, with \<open>L\<close> latent and \<open>V\<close> visible
  nodes, the covariance returned by \<open>get_covariance\<close> is an \<open>(L+V) \<times> V\<close> matrix (as the
  weights are: a row for every node, a column for every visible node), all zero after
  construction, and the visible covariance returned by \<open>get_visible_covariance\<close> is its
  \<open>V \<times> V\<close> block of the rows \<open>L\<close> to \<open>L+V-1\<close>: a view of the same storage, which shows
  entry \<open>(L+i, j)\<close> of the covariance as its entry \<open>(i, j)\<close> whatever the buffers hold.
\<close>

theorem covariance_and_visible_view:
  assumes "new_SEMNANSolver h st pa dt noise = (Inr s, h')"
  shows "shape (get_covariance s) = [latent_size s + visible_size s, visible_size s] \<and>
         h' ! storage (get_covariance s) =
           replicate ((latent_size s + visible_size s) * visible_size s) 0 \<and>
         shape (get_visible_covariance s) = [visible_size s, visible_size s] \<and>
         storage (get_visible_covariance s) = storage (get_covariance s) \<and>
         (\<forall>hh i j. read2 hh (get_visible_covariance s) i j =
                    read2 hh (get_covariance s) (latent_size s + i) j)"
proof -
  from assms obtain s0 where i: "init_parameters h st pa dt noise = (Inr s0, h')"
    and m: "make_structures s0 = Inr s"
    by (auto simp: new_SEMNANSolver_def split: prod.splits sum.splits)
  note v = init_parameters_views [OF i] and k = make_structures_keeps [OF m]
  have cov: "covariance s = \<lparr>storage = Suc (length h), storage_offset = 0,
           shape = [latent_size s + visible_size s, visible_size s],
           strides = [visible_size s, 1]\<rparr>"
    using v(2) k by simp
  have vis: "visible_covariance s = \<lparr>storage = Suc (length h),
           storage_offset = latent_size s * visible_size s,
           shape = [visible_size s, visible_size s], strides = [visible_size s, 1]\<rparr>"
    using v(3) k by simp
  have zero: "h' ! Suc (length h) =
      replicate ((latent_size s + visible_size s) * visible_size s) 0"
    using v(4) k by simp
  show ?thesis
    by (simp add: get_covariance_def get_visible_covariance_def cov vis zero read2_def
        addr2_def algebra_simps)
qed

theorem covariance_and_visible_view_witness:
  "new_SEMNANSolver [] edge_structure undefined_tensor kFloat (\<lambda>k. 1) =
     (Inr edge_solver, [[1, 0], [0, 0], [0, 0], [0, 0], [0, 0, 0, 0]]) \<and>
   shape (get_covariance edge_solver) = [2, 1] \<and>
   [[1, 0], [0, 0], [0, 0], [0, 0], [0, 0, 0, 0]] ! storage (get_covariance edge_solver) =
     [0, 0] \<and>
   shape (get_visible_covariance edge_solver) = [1, 1] \<and>
   storage (get_visible_covariance edge_solver) = storage (get_covariance edge_solver) \<and>
   read2 [[], [5, 7]] (get_visible_covariance edge_solver) 0 0 =
     read2 [[], [5, 7]] (get_covariance edge_solver) 1 0"
  using covariance_and_visible_view [OF new_edge_solver] new_edge_solver
  by (simp add: edge_solver_def get_covariance_def)

subsection \<open>Malformed inputs\<close>

lemma checked_violation_is_violation:
  "checked_violation st pa dt \<Longrightarrow> structure_violation st pa dt"
  by (auto simp: checked_violation_def structure_violation_def split: option.splits)

lemma new_edge_solver_empty_parameters:
  "new_SEMNANSolver [] edge_structure empty_parameters kFloat (\<lambda>k. 1) =
     (Inr edge_solver, [[1, 0], [0, 0], [0, 0], [0, 0], [0, 0, 0, 0]])"
  by code_simp

text \<open>
  C7, as claimed: every structure with fewer rows than columns and every supplied
  parameter tensor of another shape than the structure is rejected with an
  invalid-argument error before a buffer is made. Three inputs:
  \<^item> supplied parameters of shape \<open>[0, 7]\<close> for the structure of shape \<open>[2, 1]\<close>: the check
    of the shape is skipped for parameters without an element
    (\<open>parameters.numel() == 0 ||\<close>), and the solver is built as it is without parameters;
  \<^item> a structure of one row and \<open>2\<^sup>3\<^sup>1 + 2\<close> columns: the sizes are narrowed to \<open>int32_t\<close>,
    \<open>visible_size\<close> is \<open>-2147483646\<close> and \<open>latent_size\<close> is \<open>2147483647\<close>, and every check
    passes;
  \<^item> a one-dimensional structure: the error is the index error of
    \<open>structure.size(1)\<close>, not a failed check.
\<close>

theorem violations_not_rejected:
  "structure_violation edge_structure (Some empty_parameters) kFloat \<and>
   py_init [] edge_structure (Some empty_parameters) kFloat (\<lambda>k. 1) =
     (Inr edge_solver, [[1, 0], [0, 0], [0, 0], [0, 0], [0, 0, 0, 0]]) \<and>
   structure_violation wide_structure None kFloat \<and>
   sizes wide_structure = [1, 2147483650] \<and>
   init_checks wide_structure undefined_tensor kFloat = Inr (- 2147483646, 2147483647) \<and>
   py_init [[4]] \<lparr>sizes = [3], elems = [True, False, True], is_cuda = True\<rparr> None kFloat (\<lambda>k. 1) =
     (Inl Dimension_out_of_range, [[4]])"
proof (intro conjI)
  show "structure_violation edge_structure (Some empty_parameters) kFloat"
    by (simp add: structure_violation_def edge_structure_def empty_parameters_def
        matrix_tensor_def)
  show "py_init [] edge_structure (Some empty_parameters) kFloat (\<lambda>k. 1) =
     (Inr edge_solver, [[1, 0], [0, 0], [0, 0], [0, 0], [0, 0, 0, 0]])"
    by (simp add: py_init_def new_edge_solver_empty_parameters)
  show "structure_violation wide_structure None kFloat"
    by (simp add: structure_violation_def wide_structure_def dim_def)
  show "sizes wide_structure = [1, 2147483650]"
    by (simp add: wide_structure_def)
  show "init_checks wide_structure undefined_tensor kFloat = Inr (- 2147483646, 2147483647)"
    by (simp add: init_checks_def wide_structure_def undefined_tensor_def dim_def numel_def
        int32_def)
  show "py_init [[4]] \<lparr>sizes = [3], elems = [True, False, True], is_cuda = True\<rparr> None kFloat (\<lambda>k. 1) =
     (Inl Dimension_out_of_range, [[4]])"
    by (simp add: py_init_def new_SEMNANSolver_def init_parameters_def init_checks_def dim_def)
qed

text \<open>
  C7, amended: a structure that is not two-dimensional or has no element, a structure
  with fewer rows than columns whose number of columns fits \<open>int32_t\<close>, supplied
  parameters that have an element and another shape than the structure, and a
  precision other than float and double are rejected before a buffer is made: the
  constructor returns the index error for a structure of fewer than two dimensions and
  a failed check otherwise, with the heap as it was (no object exists). A sample
  covariance that is not two-dimensional, not square or not of extent \<open>V\<close> makes
  \<open>set_sample_covariance\<close> return a failed check with the object as it was.
\<close>

theorem malformed_inputs_rejected:
  "(checked_violation st pa dt \<longrightarrow>
      (if dim st < 2 then py_init h st pa dt noise = (Inl Dimension_out_of_range, h)
       else \<exists>m. py_init h st pa dt noise = (Inl (Check_failed m), h))) \<and>
   (sample_covariance_violation (visible_size s) sc \<longrightarrow>
      (\<exists>m. set_sample_covariance sc s = (Inl (Check_failed m), s)))"
proof
  show "checked_violation st pa dt \<longrightarrow>
      (if dim st < 2 then py_init h st pa dt noise = (Inl Dimension_out_of_range, h)
       else \<exists>m. py_init h st pa dt noise = (Inl (Check_failed m), h))"
  proof
    assume "checked_violation st pa dt"
    from init_checks_rejects [OF this]
    show "if dim st < 2 then py_init h st pa dt noise = (Inl Dimension_out_of_range, h)
       else \<exists>m. py_init h st pa dt noise = (Inl (Check_failed m), h)"
      by (auto simp: py_init_def new_SEMNANSolver_def init_parameters_def split: if_splits)
  qed
  show "sample_covariance_violation (visible_size s) sc \<longrightarrow>
      (\<exists>m. set_sample_covariance sc s = (Inl (Check_failed m), s))"
    by (auto simp: sample_covariance_violation_def set_sample_covariance_def)
qed

theorem malformed_inputs_rejected_witness:
  "checked_violation \<lparr>sizes = [3], elems = [True, False, True], is_cuda = True\<rparr> None kFloat \<and>
   py_init [[4]] \<lparr>sizes = [3], elems = [True, False, True], is_cuda = True\<rparr> None kFloat (\<lambda>k. 1) =
     (Inl Dimension_out_of_range, [[4]]) \<and>
   checked_violation \<lparr>sizes = [1, 2], elems = [True, False], is_cuda = True\<rparr> None kFloat \<and>
   py_init [[4]] \<lparr>sizes = [1, 2], elems = [True, False], is_cuda = True\<rparr> None kFloat (\<lambda>k. 1) =
     (Inl (Check_failed ''`structure` must be a vertical-rectangular matrix.''), [[4]]) \<and>
   checked_violation edge_structure (Some (one_by_one 5)) kFloat \<and>
   py_init [[4]] edge_structure (Some (one_by_one 5)) kFloat (\<lambda>k. 1) =
     (Inl (Check_failed ''`parameters` must have the same size as `structure`.''), [[4]]) \<and>
   sample_covariance_violation (visible_size unit_solver)
     \<lparr>sizes = [2, 2], elems = [1, 0, 0, 1], is_cuda = True\<rparr> \<and>
   set_sample_covariance \<lparr>sizes = [2, 2], elems = [1, 0, 0, 1], is_cuda = True\<rparr> unit_solver =
     (Inl (Check_failed ''`sample_covariance` must be a V x V matrix.''), unit_solver)"
  using malformed_inputs_rejected [of "\<lparr>sizes = [3], elems = [True, False, True], is_cuda = True\<rparr>"
      None kFloat "[[4]]" "\<lambda>k. 1" unit_solver
      "\<lparr>sizes = [2, 2], elems = [1, 0, 0, 1], is_cuda = True\<rparr>"]
    malformed_inputs_rejected [of "\<lparr>sizes = [1, 2], elems = [True, False], is_cuda = True\<rparr>"
      None kFloat "[[4]]" "\<lambda>k. 1" unit_solver
      "\<lparr>sizes = [2, 2], elems = [1, 0, 0, 1], is_cuda = True\<rparr>"]
    malformed_inputs_rejected [of edge_structure "Some (one_by_one 5)" kFloat "[[4]]" "\<lambda>k. 1"
      unit_solver "\<lparr>sizes = [2, 2], elems = [1, 0, 0, 1], is_cuda = True\<rparr>"]
  by (simp add: checked_violation_def sample_covariance_violation_def dim_def numel_def
      undefined_tensor_def py_init_def new_SEMNANSolver_def init_parameters_def init_checks_def
      set_sample_covariance_def unit_solver_def edge_structure_def matrix_tensor_def
      one_by_one_def int32_def)

subsection \<open>Loops over index ranges and checked writes\<close>

lemma topological_iff:
  "topological S L V \<longleftrightarrow> (\<forall>c<V. \<forall>r<L + V. at2 S r c \<longrightarrow> r < L + c)"
  by (auto simp: topological_def)

lemma childless_iff: "childless S V r \<longleftrightarrow> (\<forall>c<V. \<not> at2 S r c)"
  by (auto simp: childless_def)

text \<open>
  Inside a well-formed two-dimensional tensor, \<open>at2\<close> reads an element that exists.
\<close>

lemma at2_in_range:
  assumes "well_formed S" "sizes S = [R, C]" "r < R" "c < C"
  shows "r * (sizes S ! 1) + c < length (elems S)"
proof -
  from assms(3) have "Suc r * C \<le> R * C" by (intro mult_le_mono1) simp
  with assms show ?thesis by (simp add: well_formed_def)
qed

lemma upt_loop_invariant:
  assumes "P 0 b" and "\<And>i x. i < n \<Longrightarrow> P i x \<Longrightarrow> P (Suc i) (f x i)"
  shows "P n (foldl f b [0..<n])"
proof -
  have "k \<le> n \<Longrightarrow> P k (foldl f b [0..<k])" for k
  proof (induction k)
    case 0
    show ?case using assms(1) by simp
  next
    case (Suc k)
    then show ?case using assms(2) [of k] by simp
  qed
  then show ?thesis by simp
qed

lemma put_all_ok:
  "i + length xs \<le> length t \<Longrightarrow>
   \<exists>t'. put_all t i xs = Inr (t', i + length xs) \<and> length t' = length t"
proof (induction xs arbitrary: t i)
  case Nil
  then show ?case by simp
next
  case (Cons x xs)
  from Cons.prems have "i < length t" by simp
  moreover from Cons.prems have "Suc i + length xs \<le> length (t[i := x])" by simp
  from Cons.IH [OF this] obtain t' where
    "put_all (t[i := x]) (Suc i) xs = Inr (t', Suc i + length xs)" "length t' = length t"
    by auto
  ultimately show ?case by (simp add: put_def)
qed

lemma filled_all: "filled (length bases) i bases \<Longrightarrow> sorted bases \<and> (bases \<noteq> [] \<longrightarrow> last bases = int i)"
  by (auto simp: filled_def last_conv_nth)

lemma filled_step:
  assumes "filled q i bases" "q < length bases" "i \<le> i'"
  shows "filled (Suc q) i' (bases[q := int i'])"
proof -
  from assms have s: "sorted (take q bases)" and l: "0 < q \<longrightarrow> bases ! (q - 1) = int i"
    by (auto simp: filled_def)
  have le: "x \<le> int i'" if "x \<in> set (take q bases)" for x
  proof -
    from that obtain k where k: "k < q" "x = bases ! k"
      using assms(2) by (auto simp: in_set_conv_nth)
    then have "0 < q" by simp
    with l have e: "take q bases ! (q - 1) = int i" using assms(2) by simp
    from k have "take q bases ! k \<le> take q bases ! (q - 1)"
      using s assms(2) by (intro sorted_nth_mono) auto
    with k e assms(3) show ?thesis by simp
  qed
  have "take (Suc q) (bases[q := int i']) = take q bases @ [int i']"
    using assms(2) by (simp add: take_Suc_conv_app_nth)
  with s le assms(2) show ?thesis
    by (simp add: filled_def sorted_append)
qed

lemma filled_zeros: "0 < n \<Longrightarrow> filled (Suc 0) 0 (replicate n 0)"
  by (cases n) (auto simp: filled_def)

lemma filled_nothing: "filled 0 i bases"
  by (simp add: filled_def)

lemma fill_parents_ok:
  assumes "c0 \<le> V" "length bases = Suc V" "filled (Suc c0) i bases"
    "i + sum_list (map (\<lambda>c. length (pv ! c)) [c0..<V]) \<le> length par"
  shows "\<exists>par' bases'. fill_parents pv [c0..<V] (par, bases, i) =
            Inr (par', bases', i + sum_list (map (\<lambda>c. length (pv ! c)) [c0..<V])) \<and>
          length bases' = Suc V \<and> filled (Suc V) (i + sum_list (map (\<lambda>c. length (pv ! c)) [c0..<V])) bases'"
  using assms
proof (induction "V - c0" arbitrary: c0 par bases i)
  case 0
  then show ?case by simp
next
  case (Suc n)
  then have lt: "c0 < V" by simp
  then have upt: "[c0..<V] = c0 # [Suc c0..<V]" by (simp add: upt_rec)
  let ?rest = "sum_list (map (\<lambda>c. length (pv ! c)) [Suc c0..<V])"
  from Suc.prems(4) upt have "i + length (pv ! c0) \<le> length par" by simp
  from put_all_ok [OF this] obtain par1 where
    p1: "put_all par i (pv ! c0) = Inr (par1, i + length (pv ! c0))" "length par1 = length par"
    by auto
  have b1: "put bases (Suc c0) (int (i + length (pv ! c0))) =
      Inr (bases[Suc c0 := int (i + length (pv ! c0))])"
    using lt Suc.prems(2) by (simp add: put_def)
  have f1: "filled (Suc (Suc c0)) (i + length (pv ! c0)) (bases[Suc c0 := int (i + length (pv ! c0))])"
    using Suc.prems(3) lt Suc.prems(2) by (intro filled_step) auto
  have "n = V - Suc c0" using Suc.hyps(2) by simp
  from Suc.hyps(1) [OF this, of "bases[Suc c0 := int (i + length (pv ! c0))]" "i + length (pv ! c0)" par1]
    lt Suc.prems(2) f1 Suc.prems(4) upt p1(2)
  obtain par' bases' where
    "fill_parents pv [Suc c0..<V] (par1, bases[Suc c0 := int (i + length (pv ! c0))], i + length (pv ! c0)) =
       Inr (par', bases', i + length (pv ! c0) + ?rest)"
    "length bases' = Suc V" "filled (Suc V) (i + length (pv ! c0) + ?rest) bases'"
    by auto
  then show ?case
    using p1 b1 upt by (simp add: add.assoc)
qed

subsection \<open>The two inner loops of make\_structures\<close>

lemma new_layers_Suc:
  "new_layers m c (Suc n) = new_layers m c n @ [new_SEMNANLayerData (int (m + n)) (int c)]"
  by (simp add: new_layers_def)

lemma length_new_layers [simp]: "length (new_layers m c n) = n"
  by (simp add: new_layers_def)

lemma collect_parents_effect:
  assumes "c < length (parents_vec b)"
  shows "parents_vec (foldl (collect_parent S L V c) b [0..<k]) =
           (parents_vec b)[c := parents_vec b ! c @
              map (\<lambda>r. int r - int L) (filter (\<lambda>r. at2 S r c) [0..<k])] \<and>
         edge_count (foldl (collect_parent S L V c) b [0..<k]) =
           edge_count b + length (filter (\<lambda>r. at2 S r c) [0..<k]) \<and>
         ranges (foldl (collect_parent S L V c) b [0..<k]) = ranges b \<and>
         (\<exists>n. layers (foldl (collect_parent S L V c) b [0..<k]) =
                 layers b @ new_layers (length (layers b)) c n \<and>
              children_vec (foldl (collect_parent S L V c) b [0..<k]) =
                 children_vec b @ replicate n (replicate (L + V) []) \<and>
              (n = 0 \<longrightarrow> layer_max (foldl (collect_parent S L V c) b [0..<k]) = layer_max b \<and>
                 (\<forall>r<k. at2 S r c \<longrightarrow> int r - int L < layer_max b)) \<and>
              (0 < n \<longrightarrow> layer_max (foldl (collect_parent S L V c) b [0..<k]) = int c))"
proof (induction k)
  case 0
  show ?case using assms by (auto intro: exI [of _ 0] simp: new_layers_def)
next
  case (Suc k)
  let ?b = "foldl (collect_parent S L V c) b [0..<k]"
  from Suc obtain n where
    pv: "parents_vec ?b = (parents_vec b)[c := parents_vec b ! c @
              map (\<lambda>r. int r - int L) (filter (\<lambda>r. at2 S r c) [0..<k])]" and
    ec: "edge_count ?b = edge_count b + length (filter (\<lambda>r. at2 S r c) [0..<k])" and
    rg: "ranges ?b = ranges b" and
    ly: "layers ?b = layers b @ new_layers (length (layers b)) c n" and
    cv: "children_vec ?b = children_vec b @ replicate n (replicate (L + V) [])" and
    n0: "n = 0 \<longrightarrow> layer_max ?b = layer_max b \<and> (\<forall>r<k. at2 S r c \<longrightarrow> int r - int L < layer_max b)" and
    n1: "0 < n \<longrightarrow> layer_max ?b = int c"
    by blast
  have step: "foldl (collect_parent S L V c) b [0..<Suc k] = collect_parent S L V c ?b k"
    by simp
  show ?case
  proof (cases "at2 S k c")
    case False
    then have "collect_parent S L V c ?b k = ?b" by (simp add: collect_parent_def)
    with False pv ec rg ly cv n0 n1 show ?thesis
      unfolding step by (auto intro!: exI [of _ n] simp: less_Suc_eq)
  next
    case True
    show ?thesis
    proof (cases "int k - int L \<ge> layer_max ?b")
      case open_layer: True
      have "layers (collect_parent S L V c ?b k) =
              layers b @ new_layers (length (layers b)) c (Suc n)"
        using True open_layer ly by (simp add: collect_parent_def Let_def new_layers_Suc)
      moreover have "children_vec (collect_parent S L V c ?b k) =
              children_vec b @ replicate (Suc n) (replicate (L + V) [])"
        using True open_layer cv
        by (simp add: collect_parent_def Let_def replicate_append_same)
      moreover have "layer_max (collect_parent S L V c ?b k) = int c"
        using True open_layer by (simp add: collect_parent_def Let_def)
      moreover have "parents_vec (collect_parent S L V c ?b k) =
           (parents_vec b)[c := parents_vec b ! c @
              map (\<lambda>r. int r - int L) (filter (\<lambda>r. at2 S r c) [0..<Suc k])]"
        using True open_layer pv assms by (simp add: collect_parent_def Let_def)
      moreover have "edge_count (collect_parent S L V c ?b k) =
           edge_count b + length (filter (\<lambda>r. at2 S r c) [0..<Suc k])"
        using True open_layer ec by (simp add: collect_parent_def Let_def)
      moreover have "ranges (collect_parent S L V c ?b k) = ranges b"
        using True open_layer rg by (simp add: collect_parent_def Let_def)
      ultimately show ?thesis
        unfolding step by (intro conjI exI [of _ "Suc n"]) simp_all
    next
      case same_layer: False
      have "layers (collect_parent S L V c ?b k) =
              layers b @ new_layers (length (layers b)) c n"
        using True same_layer ly by (simp add: collect_parent_def Let_def)
      moreover have "children_vec (collect_parent S L V c ?b k) =
              children_vec b @ replicate n (replicate (L + V) [])"
        using True same_layer cv by (simp add: collect_parent_def Let_def)
      moreover have lm: "layer_max (collect_parent S L V c ?b k) = layer_max ?b"
        using True same_layer by (simp add: collect_parent_def Let_def)
      moreover have "parents_vec (collect_parent S L V c ?b k) =
           (parents_vec b)[c := parents_vec b ! c @
              map (\<lambda>r. int r - int L) (filter (\<lambda>r. at2 S r c) [0..<Suc k])]"
        using True same_layer pv assms by (simp add: collect_parent_def Let_def)
      moreover have "edge_count (collect_parent S L V c ?b k) =
           edge_count b + length (filter (\<lambda>r. at2 S r c) [0..<Suc k])"
        using True same_layer ec by (simp add: collect_parent_def Let_def)
      moreover have "ranges (collect_parent S L V c ?b k) = ranges b"
        using True same_layer rg by (simp add: collect_parent_def Let_def)
      moreover have "n = 0 \<longrightarrow> layer_max ?b = layer_max b \<and>
          (\<forall>r<Suc k. at2 S r c \<longrightarrow> int r - int L < layer_max b)"
        using n0 same_layer by (auto simp: less_Suc_eq)
      ultimately show ?thesis
        unfolding step using n1 by (intro conjI exI [of _ n]) simp_all
    qed
  qed
qed

lemma update_last_snoc: "length xs = n \<Longrightarrow> (xs @ [y])[n := z] = xs @ [z]"
  by (auto simp: list_update_append)

lemma record_children_effect:
  assumes "children_vec b \<noteq> []" "length (last (children_vec b)) = T" "length (ranges b) = L"
  shows "edge_count (foldl (record_child S L c) b [0..<k]) = edge_count b \<and>
         parents_vec (foldl (record_child S L c) b [0..<k]) = parents_vec b \<and>
         layers (foldl (record_child S L c) b [0..<k]) = layers b \<and>
         layer_max (foldl (record_child S L c) b [0..<k]) = layer_max b \<and>
         children_vec (foldl (record_child S L c) b [0..<k]) =
           butlast (children_vec b) @
             [map (\<lambda>r. last (children_vec b) ! r @ (if r < k \<and> at2 S r c then [int c] else []))
                [0..<T]] \<and>
         ranges (foldl (record_child S L c) b [0..<k]) =
           map (\<lambda>r. if r < k \<and> at2 S r c
                     then extend_range (idx (last (layers b)) - 1) (ranges b ! r)
                     else ranges b ! r) [0..<L]"
proof (induction k)
  case 0
  have "map ((!) (last (children_vec b))) [0..<T] = last (children_vec b)"
    using map_nth [of "last (children_vec b)"] assms(2) by simp
  moreover have "map ((!) (ranges b)) [0..<L] = ranges b"
    using map_nth [of "ranges b"] assms(3) by simp
  ultimately show ?case using assms(1) by simp
next
  case (Suc k)
  let ?b = "foldl (record_child S L c) b [0..<k]"
  let ?M = "\<lambda>k. map (\<lambda>r. last (children_vec b) ! r @ (if r < k \<and> at2 S r c then [int c] else []))
                [0..<T]"
  let ?R = "\<lambda>k. map (\<lambda>r. if r < k \<and> at2 S r c
                     then extend_range (idx (last (layers b)) - 1) (ranges b ! r)
                     else ranges b ! r) [0..<L]"
  from Suc have ec: "edge_count ?b = edge_count b" and pv: "parents_vec ?b = parents_vec b"
    and ly: "layers ?b = layers b" and lm: "layer_max ?b = layer_max b"
    and cv: "children_vec ?b = butlast (children_vec b) @ [?M k]"
    and rg: "ranges ?b = ?R k"
    by blast+
  have step: "foldl (record_child S L c) b [0..<Suc k] = record_child S L c ?b k"
    by simp
  show ?case
  proof (cases "at2 S k c")
    case False
    then have "record_child S L c ?b k = ?b" by (simp add: record_child_def)
    moreover from False have "?M (Suc k) = ?M k" by (auto simp: less_Suc_eq)
    moreover from False have "?R (Suc k) = ?R k" by (auto simp: less_Suc_eq)
    ultimately show ?thesis
      unfolding step using ec pv ly lm cv rg by simp
  next
    case True
    have M: "(?M k)[k := ?M k ! k @ [int c]] = ?M (Suc k)"
    proof (rule nth_equalityI)
      show "length ((?M k)[k := ?M k ! k @ [int c]]) = length (?M (Suc k))" by simp
    next
      fix i assume "i < length ((?M k)[k := ?M k ! k @ [int c]])"
      then have "i < T" by simp
      then show "(?M k)[k := ?M k ! k @ [int c]] ! i = ?M (Suc k) ! i"
        using True by (cases "i = k") (auto simp: less_Suc_eq)
    qed
    have R: "(?R k)[k := extend_range (idx (last (layers b)) - 1) (?R k ! k)] = ?R (Suc k)"
      if "k < L"
    proof (rule nth_equalityI)
      show "length ((?R k)[k := extend_range (idx (last (layers b)) - 1) (?R k ! k)]) =
            length (?R (Suc k))" by simp
    next
      fix i assume "i < length ((?R k)[k := extend_range (idx (last (layers b)) - 1) (?R k ! k)])"
      then have "i < L" by simp
      then show "(?R k)[k := extend_range (idx (last (layers b)) - 1) (?R k ! k)] ! i =
            ?R (Suc k) ! i"
        using True that by (cases "i = k") (auto simp: less_Suc_eq)
    qed
    have R': "\<not> k < L \<Longrightarrow> ?R (Suc k) = ?R k"
      by auto
    have U: "(butlast (children_vec b) @ [?M k])[length (children_vec b) - 1 := Z] =
        butlast (children_vec b) @ [Z]" for Z
      by (rule update_last_snoc) simp
    have "children_vec (record_child S L c ?b k) =
        (children_vec ?b)[length (children_vec ?b) - 1 :=
           (last (children_vec ?b))[k := last (children_vec ?b) ! k @ [int c]]]"
      using True by (simp add: record_child_def Let_def)
    also have "\<dots> = butlast (children_vec b) @ [?M (Suc k)]"
      unfolding cv using M U by simp
    finally have "children_vec (record_child S L c ?b k) =
        butlast (children_vec b) @ [?M (Suc k)]" .
    moreover have "ranges (record_child S L c ?b k) = ?R (Suc k)"
    proof (cases "k < L")
      case True
      with \<open>at2 S k c\<close> rg ly R [OF True] show ?thesis
        by (simp add: record_child_def Let_def del: upt_Suc)
    next
      case False
      with \<open>at2 S k c\<close> rg R' [OF False] show ?thesis
        by (simp add: record_child_def Let_def del: upt_Suc)
    qed
    moreover have "edge_count (record_child S L c ?b k) = edge_count b"
      "parents_vec (record_child S L c ?b k) = parents_vec b"
      "layers (record_child S L c ?b k) = layers b"
      "layer_max (record_child S L c ?b k) = layer_max b"
      using True ec pv ly lm by (simp_all add: record_child_def Let_def)
    ultimately show ?thesis
      unfolding step by simp
  qed
qed

subsection \<open>The layers\<close>

lemma in_layer_append_new:
  "in_layer (lv @ [new_SEMNANLayerData i c]) k m \<longleftrightarrow> in_layer lv k m"
  by (auto simp: in_layer_def nth_append new_SEMNANLayerData_def less_Suc_eq)

lemma layers_inv_append_new:
  assumes "layers_inv c lv"
  shows "layers_inv c (lv @ [new_SEMNANLayerData (int (length lv)) (int c)])"
  using assms unfolding layers_inv_def in_layer_append_new
  by (auto simp: nth_append new_SEMNANLayerData_def)

lemma layers_inv_new_layers:
  assumes "layers_inv c lv"
  shows "layers_inv c (lv @ new_layers (length lv) c n) \<and>
         (\<forall>k m. in_layer (lv @ new_layers (length lv) c n) k m \<longleftrightarrow> in_layer lv k m) \<and>
         (0 < n \<longrightarrow> base (last (lv @ new_layers (length lv) c n)) = int c)"
proof (induction n)
  case 0
  show ?case using assms by (simp add: new_layers_def)
next
  case (Suc n)
  let ?lv = "lv @ new_layers (length lv) c n"
  have eq: "lv @ new_layers (length lv) c (Suc n) =
      ?lv @ [new_SEMNANLayerData (int (length ?lv)) (int c)]"
    by (simp add: new_layers_Suc)
  from Suc have "layers_inv c ?lv" by simp
  from layers_inv_append_new [OF this] Suc show ?case
    unfolding eq in_layer_append_new by (simp add: new_SEMNANLayerData_def)
qed

lemma in_layer_count_last:
  assumes "layers_inv c lv"
  shows "in_layer (count_last lv) k m \<longleftrightarrow> in_layer lv k m \<or> (k = length lv - 1 \<and> m = c)"
proof -
  from assms have len: "2 \<le> length lv" and e: "base (last lv) + int (num (last lv)) = int c"
    by (auto simp: layers_inv_def)
  then have l: "last lv = lv ! (length lv - 1)"
    by (intro last_conv_nth) auto
  show ?thesis
  proof (cases "k = length lv - 1")
    case True
    with len e l show ?thesis
      by (auto simp: in_layer_def count_last_def)
  next
    case False
    then show ?thesis
      by (auto simp: in_layer_def count_last_def)
  qed
qed

lemma layers_inv_count_last:
  assumes "layers_inv c lv"
  shows "layers_inv (Suc c) (count_last lv)"
proof -
  from assms have len: "2 \<le> length lv" and e: "base (last lv) + int (num (last lv)) = int c"
    and ix: "\<forall>k. 1 \<le> k \<and> k < length lv \<longrightarrow> idx (lv ! k) = int k"
    and bd: "\<forall>k m. in_layer lv k m \<longrightarrow> m < c"
    and un: "\<forall>m<c. \<exists>k. in_layer lv k m \<and> (\<forall>j. in_layer lv j m \<longrightarrow> j = k)"
    by (auto simp: layers_inv_def)
  from len have l: "last lv = lv ! (length lv - 1)"
    by (intro last_conv_nth) auto
  have il: "in_layer (count_last lv) k m \<longleftrightarrow> in_layer lv k m \<or> (k = length lv - 1 \<and> m = c)"
    for k m by (rule in_layer_count_last [OF assms])
  have "2 \<le> length (count_last lv)" using len by (simp add: count_last_def)
  moreover have "\<forall>k. 1 \<le> k \<and> k < length (count_last lv) \<longrightarrow> idx (count_last lv ! k) = int k"
    using ix l len by (auto simp: count_last_def nth_list_update)
  moreover have "base (last (count_last lv)) + int (num (last (count_last lv))) = int (Suc c)"
  proof -
    from len have "lv \<noteq> []" by auto
    then show ?thesis using e by (simp add: count_last_def last_list_update)
  qed
  moreover have "\<forall>k m. in_layer (count_last lv) k m \<longrightarrow> m < Suc c"
    using bd by (auto simp: il less_Suc_eq)
  moreover have "\<forall>m<Suc c. \<exists>k. in_layer (count_last lv) k m \<and>
      (\<forall>j. in_layer (count_last lv) j m \<longrightarrow> j = k)"
  proof (intro allI impI)
    fix m assume "m < Suc c"
    show "\<exists>k. in_layer (count_last lv) k m \<and> (\<forall>j. in_layer (count_last lv) j m \<longrightarrow> j = k)"
    proof (cases "m = c")
      case True
      have "\<not> in_layer lv j c" for j using bd by auto
      with True show ?thesis by (auto simp: il)
    next
      case False
      with \<open>m < Suc c\<close> have "m < c" by simp
      with un obtain k where "in_layer lv k m" "\<forall>j. in_layer lv j m \<longrightarrow> j = k" by blast
      with False show ?thesis by (auto simp: il)
    qed
  qed
  ultimately show ?thesis unfolding layers_inv_def by blast
qed

lemma layers_inv_init: "layers_inv 0 [default_SEMNANLayerData, new_SEMNANLayerData 1 0]"
  by (auto simp: layers_inv_def in_layer_def new_SEMNANLayerData_def less_Suc_eq)

subsection \<open>One column\<close>

lemma visit_column_effect:
  assumes "c < length (parents_vec b)" "children_vec b \<noteq> []"
    "\<forall>bk\<in>set (children_vec b). length bk = L + V" "length (ranges b) = L"
  shows "\<exists>n. layers (visit_column S L V b c) =
               count_last (layers b @ new_layers (length (layers b)) c n) \<and>
             children_vec (visit_column S L V b c) =
               butlast (children_vec b @ replicate n (replicate (L + V) [])) @
                 [map (\<lambda>r. last (children_vec b @ replicate n (replicate (L + V) [])) ! r @
                           (if at2 S r c then [int c] else [])) [0..<L + V]] \<and>
             ranges (visit_column S L V b c) =
               map (\<lambda>r. if at2 S r c
                     then extend_range
                       (idx (last (layers b @ new_layers (length (layers b)) c n)) - 1)
                       (ranges b ! r)
                     else ranges b ! r) [0..<L] \<and>
             parents_vec (visit_column S L V b c) =
               (parents_vec b)[c := parents_vec b ! c @ parents_of S L V c] \<and>
             edge_count (visit_column S L V b c) = edge_count b + length (parents_of S L V c) \<and>
             (n = 0 \<longrightarrow> layer_max (visit_column S L V b c) = layer_max b \<and>
                (\<forall>r<L + V. at2 S r c \<longrightarrow> int r - int L < layer_max b)) \<and>
             (0 < n \<longrightarrow> layer_max (visit_column S L V b c) = int c)"
proof -
  let ?b1 = "foldl (collect_parent S L V c) b [0..<L + V]"
  let ?b2 = "foldl (record_child S L c) ?b1 [0..<L + V]"
  from collect_parents_effect [OF assms(1), of S L V "L + V"] obtain n where
    pv: "parents_vec ?b1 = (parents_vec b)[c := parents_vec b ! c @ parents_of S L V c]" and
    ec: "edge_count ?b1 = edge_count b + length (parents_of S L V c)" and
    rg: "ranges ?b1 = ranges b" and
    ly: "layers ?b1 = layers b @ new_layers (length (layers b)) c n" and
    cv: "children_vec ?b1 = children_vec b @ replicate n (replicate (L + V) [])" and
    n0: "n = 0 \<longrightarrow> layer_max ?b1 = layer_max b \<and>
           (\<forall>r<L + V. at2 S r c \<longrightarrow> int r - int L < layer_max b)" and
    n1: "0 < n \<longrightarrow> layer_max ?b1 = int c"
    unfolding parents_of_def by auto
  have ne: "children_vec ?b1 \<noteq> []" using assms(2) cv by simp
  have ll: "length (last (children_vec ?b1)) = L + V"
    using assms(2,3) unfolding cv by (cases n) (auto simp: last_append)
  have lr: "length (ranges ?b1) = L" using assms(4) rg by simp
  note e2 = record_children_effect [OF ne ll lr, of S c "L + V"]
  have v: "visit_column S L V b c = ?b2\<lparr>layers := count_last (layers ?b2)\<rparr>"
    by (simp add: visit_column_def Let_def count_last_def)
  have rmap: "map (\<lambda>r. if r < L + V \<and> at2 S r c
                     then extend_range (idx (last (layers ?b1)) - 1) (ranges ?b1 ! r)
                     else ranges ?b1 ! r) [0..<L] =
              map (\<lambda>r. if at2 S r c
                     then extend_range (idx (last (layers ?b1)) - 1) (ranges ?b1 ! r)
                     else ranges ?b1 ! r) [0..<L]"
    by (rule map_cong) auto
  have cmap: "map (\<lambda>r. last (children_vec ?b1) ! r @
                  (if r < L + V \<and> at2 S r c then [int c] else [])) [0..<L + V] =
              map (\<lambda>r. last (children_vec ?b1) ! r @
                  (if at2 S r c then [int c] else [])) [0..<L + V]"
    by (rule map_cong) auto
  show ?thesis
    apply (rule exI [of _ n])
    unfolding v
    using e2 n0 n1
    apply (simp only: rmap cmap)
    apply (simp add: pv ec rg ly cv)
    done
qed

lemma range_inv_step:
  assumes il: "\<And>k m. in_layer lv' k m \<longleftrightarrow> in_layer lv k m \<or> (k = a \<and> m = c)"
    and bd: "\<And>k m. in_layer lv k m \<Longrightarrow> m < c \<and> k \<le> a"
    and a: "1 \<le> a"
    and inv: "range_inv S c lv r \<rho>"
  shows "range_inv S (Suc c) lv' r (if at2 S r c then extend_range (int a - 1) \<rho> else \<rho>)"
proof (cases "at2 S r c")
  case False
  have old: "in_layer lv' k c' \<longleftrightarrow> in_layer lv k c'" if "c' < c" for k c'
    using that by (auto simp: il)
  have all: "(\<forall>c'<Suc c. \<not> at2 S r c') \<longleftrightarrow> (\<forall>c'<c. \<not> at2 S r c')"
    using False by (auto simp: less_Suc_eq)
  show ?thesis
  proof (cases "\<forall>c'<c. \<not> at2 S r c'")
    case True
    with inv False all show ?thesis by (simp add: range_inv_def)
  next
    case some: False
    with inv have p: "0 \<le> fst \<rho>" "0 \<le> snd \<rho>"
      and w1: "\<exists>c'<c. at2 S r c' \<and> in_layer lv (nat (fst \<rho>) + 1) c'"
      and w2: "\<exists>c'<c. at2 S r c' \<and> in_layer lv (nat (snd \<rho>) + 1) c'"
      and bnd: "\<forall>c'<c. at2 S r c' \<longrightarrow>
           (\<forall>k. in_layer lv k c' \<longrightarrow> fst \<rho> + 1 \<le> int k \<and> int k \<le> snd \<rho> + 1)"
      by (auto simp: range_inv_def)
    from w1 old have w1': "\<exists>c'<Suc c. at2 S r c' \<and> in_layer lv' (nat (fst \<rho>) + 1) c'"
      by (metis less_Suc_eq)
    from w2 old have w2': "\<exists>c'<Suc c. at2 S r c' \<and> in_layer lv' (nat (snd \<rho>) + 1) c'"
      by (metis less_Suc_eq)
    have bnd': "\<forall>c'<Suc c. at2 S r c' \<longrightarrow>
           (\<forall>k. in_layer lv' k c' \<longrightarrow> fst \<rho> + 1 \<le> int k \<and> int k \<le> snd \<rho> + 1)"
      using bnd old False by (auto simp: less_Suc_eq)
    from some all have "\<not> (\<forall>c'<Suc c. \<not> at2 S r c')" by simp
    with False p w1' w2' bnd' show ?thesis
      unfolding range_inv_def by auto
  qed
next
  case True
  have new: "in_layer lv' a c" by (simp add: il)
  have only: "k = a" if "in_layer lv' k c" for k
    using that bd [of k c] by (auto simp: il)
  have old: "in_layer lv' k c' \<longleftrightarrow> in_layer lv k c'" if "c' < c" for k c'
    using that by (auto simp: il)
  have some': "\<not> (\<forall>c'<Suc c. \<not> at2 S r c')" using True by auto
  show ?thesis
  proof (cases "\<forall>c'<c. \<not> at2 S r c'")
    case none: True
    with inv have "\<rho> = (- 1, - 1)" by (simp add: range_inv_def)
    then have e: "extend_range (int a - 1) \<rho> = (int a - 1, int a - 1)"
      by (simp add: extend_range_def)
    have n: "nat (int a - 1) + 1 = a" using a by simp
    have bnd': "\<forall>c'<Suc c. at2 S r c' \<longrightarrow>
           (\<forall>k. in_layer lv' k c' \<longrightarrow> int a - 1 + 1 \<le> int k \<and> int k \<le> int a - 1 + 1)"
      using none only by (auto simp: less_Suc_eq)
    show ?thesis
      unfolding range_inv_def using True some' e n new a bnd'
      by (auto intro!: exI [of _ c])
  next
    case some: False
    with inv have p: "0 \<le> fst \<rho>" "0 \<le> snd \<rho>"
      and w1: "\<exists>c'<c. at2 S r c' \<and> in_layer lv (nat (fst \<rho>) + 1) c'"
      and w2: "\<exists>c'<c. at2 S r c' \<and> in_layer lv (nat (snd \<rho>) + 1) c'"
      and bnd: "\<forall>c'<c. at2 S r c' \<longrightarrow>
           (\<forall>k. in_layer lv k c' \<longrightarrow> fst \<rho> + 1 \<le> int k \<and> int k \<le> snd \<rho> + 1)"
      by (auto simp: range_inv_def)
    from p have e: "extend_range (int a - 1) \<rho> = (fst \<rho>, int a - 1)"
      by (simp add: extend_range_def)
    have n: "nat (int a - 1) + 1 = a" using a by simp
    from w1 old have w1': "\<exists>c'<Suc c. at2 S r c' \<and> in_layer lv' (nat (fst \<rho>) + 1) c'"
      by (metis less_Suc_eq)
    from w1 bd have fa: "fst \<rho> + 1 \<le> int a"
      using p by (metis add.commute nat_0_le of_nat_Suc of_nat_le_iff plus_1_eq_Suc)
    have bnd': "\<forall>c'<Suc c. at2 S r c' \<longrightarrow>
           (\<forall>k. in_layer lv' k c' \<longrightarrow> fst \<rho> + 1 \<le> int k \<and> int k \<le> int a - 1 + 1)"
    proof (intro allI impI)
      fix c' k assume c': "c' < Suc c" "at2 S r c'" "in_layer lv' k c'"
      show "fst \<rho> + 1 \<le> int k \<and> int k \<le> int a - 1 + 1"
      proof (cases "c' = c")
        case True
        with c' only have "k = a" by simp
        with fa show ?thesis by simp
      next
        case False
        with c' have lt: "c' < c" by simp
        with c' old have "in_layer lv k c'" by simp
        with bnd lt c' bd [of k c'] show ?thesis by auto
      qed
    qed
    show ?thesis
      unfolding range_inv_def using True some' e n new a bnd' w1' p
      by (auto intro!: exI [of _ c])
  qed
qed

subsection \<open>The invariant of the first loop\<close>

lemma sum_list_indicator:
  "sum_list (map (\<lambda>r. f r + (if P r then 1 else 0)) rs) =
   sum_list (map f rs) + length (filter P rs)"
  for f :: "nat \<Rightarrow> nat"
  by (induction rs) auto

lemma sum_list_lengths_nth:
  "length xs = T \<Longrightarrow> sum_list (map (\<lambda>r. length (xs ! r)) [0..<T]) = sum_list (map length xs)"
proof -
  assume "length xs = T"
  then have "map (\<lambda>r. length (xs ! r)) [0..<T] = map length (map ((!) xs) [0..<length xs])"
    by simp
  then show ?thesis by (simp only: map_nth)
qed

lemma bucket_total_snoc:
  "bucket_total (cv @ [bk]) = bucket_total cv + sum_list (map length bk)"
  by (simp add: bucket_total_def)

lemma bucket_total_empty_buckets:
  "bucket_total (cv @ replicate n (replicate T [])) = bucket_total cv"
  by (induction n) (simp_all add: bucket_total_def)

lemma bucket_total_record:
  assumes "cv \<noteq> []" "length (last cv) = T"
  shows "bucket_total (butlast cv @
           [map (\<lambda>r. last cv ! r @ (if P r then [x] else [])) [0..<T]]) =
         bucket_total cv + length (filter P [0..<T])"
proof -
  have "sum_list (map length (map (\<lambda>r. last cv ! r @ (if P r then [x] else [])) [0..<T])) =
        sum_list (map (\<lambda>r. length (last cv ! r) + (if P r then 1 else 0)) [0..<T])"
    by (simp add: comp_def if_distrib cong: if_cong)
  also have "\<dots> = sum_list (map length (last cv)) + length (filter P [0..<T])"
    by (simp only: sum_list_indicator sum_list_lengths_nth [OF assms(2)])
  finally have "bucket_total (butlast cv @
           [map (\<lambda>r. last cv ! r @ (if P r then [x] else [])) [0..<T]]) =
      bucket_total (butlast cv) + sum_list (map length (last cv)) + length (filter P [0..<T])"
    by (simp add: bucket_total_snoc)
  also have "bucket_total (butlast cv) + sum_list (map length (last cv)) =
      bucket_total (butlast cv @ [last cv])"
    by (simp add: bucket_total_snoc)
  also have "butlast cv @ [last cv] = cv" using assms(1) by simp
  finally show ?thesis .
qed

lemma base_last_count_last: "lv \<noteq> [] \<Longrightarrow> base (last (count_last lv)) = base (last lv)"
  by (simp add: count_last_def last_list_update)

lemma graph_inv_init: "graph_inv S L V 0 (init_build L V)"
proof -
  have "range_inv S 0 lv r (- 1, - 1)" for lv r
    by (simp add: range_inv_def)
  moreover have "replicate V [] = map (\<lambda>c'. []) [0..<V]"
    by (simp add: map_replicate_const)
  ultimately show ?thesis
    using layers_inv_init
    by (simp add: graph_inv_def init_build_def bucket_total_def)
qed

lemma graph_inv_step:
  assumes inv: "graph_inv S L V c b" and c: "c < V"
  shows "graph_inv S L V (Suc c) (visit_column S L V b c)"
proof -
  let ?b' = "visit_column S L V b c"
  from inv have lr: "length (ranges b) = L" and ne: "children_vec b \<noteq> []"
    and lc: "length (children_vec b) + 1 = length (layers b)"
    and bl: "\<forall>bk\<in>set (children_vec b). length bk = L + V"
    and li: "layers_inv c (layers b)"
    and lm: "layer_max b = - 1 \<or> layer_max b = base (last (layers b))"
    and pv: "parents_vec b = map (\<lambda>c'. if c' < c then parents_of S L V c' else []) [0..<V]"
    and ec: "edge_count b = sum_list (map (\<lambda>c'. length (parents_of S L V c')) [0..<c])"
    and bt: "bucket_total (children_vec b) = edge_count b"
    and ri: "\<forall>r<L. range_inv S c (layers b) r (ranges b ! r)"
    by (auto simp: graph_inv_def)
  from pv c have cl: "c < length (parents_vec b)" by simp
  let ?lv1 = "\<lambda>n. layers b @ new_layers (length (layers b)) c n"
  let ?cv1 = "\<lambda>n. children_vec b @ replicate n (replicate (L + V) [])"
  from visit_column_effect [OF cl ne bl lr, of S] obtain n where
    ly': "layers ?b' = count_last (?lv1 n)" and
    cv': "children_vec ?b' = butlast (?cv1 n) @
            [map (\<lambda>r. last (?cv1 n) ! r @ (if at2 S r c then [int c] else [])) [0..<L + V]]" and
    rg': "ranges ?b' = map (\<lambda>r. if at2 S r c
                     then extend_range (idx (last (?lv1 n)) - 1) (ranges b ! r)
                     else ranges b ! r) [0..<L]" and
    pv': "parents_vec ?b' = (parents_vec b)[c := parents_vec b ! c @ parents_of S L V c]" and
    ec': "edge_count ?b' = edge_count b + length (parents_of S L V c)" and
    n0: "n = 0 \<longrightarrow> layer_max ?b' = layer_max b" and
    n1: "0 < n \<longrightarrow> layer_max ?b' = int c"
    by blast
  from layers_inv_new_layers [OF li, of n]
  have li1: "layers_inv c (?lv1 n)"
    and il1: "\<And>k m. in_layer (?lv1 n) k m \<longleftrightarrow> in_layer (layers b) k m"
    and b1: "0 < n \<longrightarrow> base (last (?lv1 n)) = int c"
    by auto
  have len1: "length (?lv1 n) = length (layers b) + n" by simp
  from li1 have ge2: "2 \<le> length (?lv1 n)" by (simp add: layers_inv_def)
  from li have "2 \<le> length (layers b)" by (simp add: layers_inv_def)
  then have ne0: "layers b \<noteq> []" by auto
  then have ne1: "?lv1 n \<noteq> []" by simp
  have ne_cv1: "?cv1 n \<noteq> []" using ne by simp
  have ll: "length (last (?cv1 n)) = L + V"
    using ne bl by (cases n) (auto simp: last_append)
  \<comment> \<open>the sizes\<close>
  have 1: "length (ranges ?b') = L" by (simp add: rg')
  have 2: "children_vec ?b' \<noteq> []" by (simp add: cv')
  have 3: "length (children_vec ?b') + 1 = length (layers ?b')"
    using lc ne by (simp add: cv' ly' count_last_def)
  have 4: "\<forall>bk\<in>set (children_vec ?b'). length bk = L + V"
  proof
    fix bk assume "bk \<in> set (children_vec ?b')"
    then have "bk \<in> set (butlast (?cv1 n)) \<or>
        bk = map (\<lambda>r. last (?cv1 n) ! r @ (if at2 S r c then [int c] else [])) [0..<L + V]"
      by (auto simp: cv')
    then show "length bk = L + V"
    proof
      assume "bk \<in> set (butlast (?cv1 n))"
      then have "bk \<in> set (?cv1 n)" by (rule in_set_butlastD)
      with bl show ?thesis by auto
    next
      assume "bk = map (\<lambda>r. last (?cv1 n) ! r @ (if at2 S r c then [int c] else [])) [0..<L + V]"
      then show ?thesis by simp
    qed
  qed
  \<comment> \<open>the layers\<close>
  have 5: "layers_inv (Suc c) (layers ?b')"
    unfolding ly' by (rule layers_inv_count_last [OF li1])
  have 6: "layer_max ?b' = - 1 \<or> layer_max ?b' = base (last (layers ?b'))"
  proof (cases "n = 0")
    case True
    with n0 lm show ?thesis
      using ne1 by (auto simp: ly' base_last_count_last new_layers_def)
  next
    case False
    with n1 b1 show ?thesis
      using ne1 by (simp add: ly' base_last_count_last)
  qed
  \<comment> \<open>the edges\<close>
  have 7: "parents_vec ?b' = map (\<lambda>c'. if c' < Suc c then parents_of S L V c' else []) [0..<V]"
    unfolding pv' pv
    by (rule nth_equalityI) (use c in \<open>auto simp: nth_list_update less_Suc_eq\<close>)
  have 8: "edge_count ?b' = sum_list (map (\<lambda>c'. length (parents_of S L V c')) [0..<Suc c])"
    by (simp add: ec' ec)
  have 9: "bucket_total (children_vec ?b') = edge_count ?b'"
    unfolding cv' ec' bucket_total_record [OF ne_cv1 ll] bucket_total_empty_buckets bt
    by (simp add: parents_of_def)
  \<comment> \<open>the presence ranges\<close>
  have idx1: "idx (last (?lv1 n)) = int (length (?lv1 n) - 1)"
  proof -
    define lw where "lw = ?lv1 n"
    from li1 have a: "\<forall>k. 1 \<le> k \<and> k < length lw \<longrightarrow> idx (lw ! k) = int k"
      by (simp add: layers_inv_def lw_def)
    from ge2 have g: "2 \<le> length lw" by (simp add: lw_def)
    then have "1 \<le> length lw - 1 \<and> length lw - 1 < length lw" by auto
    with a have "idx (lw ! (length lw - 1)) = int (length lw - 1)" by blast
    moreover from g have "lw \<noteq> []" by auto
    ultimately have "idx (last lw) = int (length lw - 1)" by (simp add: last_conv_nth)
    then show ?thesis by (simp only: lw_def)
  qed
  have il': "in_layer (layers ?b') k m \<longleftrightarrow>
      in_layer (layers b) k m \<or> (k = length (?lv1 n) - 1 \<and> m = c)" for k m
    unfolding ly' in_layer_count_last [OF li1] il1 ..
  have bd: "m < c \<and> k \<le> length (?lv1 n) - 1" if "in_layer (layers b) k m" for k m
  proof -
    from li that have "m < c" by (auto simp: layers_inv_def)
    moreover from that have "k < length (layers b)" by (simp add: in_layer_def)
    ultimately show ?thesis by simp
  qed
  have 10: "\<forall>r<L. range_inv S (Suc c) (layers ?b') r (ranges ?b' ! r)"
  proof (intro allI impI)
    fix r assume r: "r < L"
    with ri have "range_inv S c (layers b) r (ranges b ! r)" by simp
    from range_inv_step [of "layers ?b'" "layers b" "length (?lv1 n) - 1" c S r "ranges b ! r",
        OF il' bd _ this] ge2
    have "range_inv S (Suc c) (layers ?b') r
        (if at2 S r c then extend_range (int (length (?lv1 n) - 1) - 1) (ranges b ! r)
         else ranges b ! r)"
      by simp
    then show "range_inv S (Suc c) (layers ?b') r (ranges ?b' ! r)"
      using r by (simp add: rg' idx1 split: if_splits)
  qed
  from 1 2 3 4 5 6 7 8 9 10 show ?thesis
    unfolding graph_inv_def by blast
qed

lemma graph_inv_build: "graph_inv S L V V (build_graph S L V)"
  unfolding build_graph_def
  by (rule upt_loop_invariant [where P = "graph_inv S L V"]) (auto intro: graph_inv_init graph_inv_step)

subsection \<open>Parents lie in earlier layers\<close>

lemma order_inv_step:
  assumes inv: "graph_inv S L V c b" and c: "c < V" and topo: "topological S L V"
    and ord: "order_inv S L V c (layers b)"
  shows "order_inv S L V (Suc c) (layers (visit_column S L V b c))"
proof -
  let ?b' = "visit_column S L V b c"
  from inv have lr: "length (ranges b) = L" and ne: "children_vec b \<noteq> []"
    and bl: "\<forall>bk\<in>set (children_vec b). length bk = L + V"
    and li: "layers_inv c (layers b)"
    and lm: "layer_max b = - 1 \<or> layer_max b = base (last (layers b))"
    and pv: "parents_vec b = map (\<lambda>c'. if c' < c then parents_of S L V c' else []) [0..<V]"
    by (auto simp: graph_inv_def)
  from pv c have cl: "c < length (parents_vec b)" by simp
  let ?lv1 = "\<lambda>n. layers b @ new_layers (length (layers b)) c n"
  from visit_column_effect [OF cl ne bl lr, of S] obtain n where
    ly': "layers ?b' = count_last (?lv1 n)" and
    n0: "n = 0 \<longrightarrow> (\<forall>r<L + V. at2 S r c \<longrightarrow> int r - int L < layer_max b)"
    by blast
  from layers_inv_new_layers [OF li, of n]
  have li1: "layers_inv c (?lv1 n)"
    and il1: "\<And>k m. in_layer (?lv1 n) k m \<longleftrightarrow> in_layer (layers b) k m"
    by auto
  have il': "in_layer (layers ?b') k m \<longleftrightarrow>
      in_layer (layers b) k m \<or> (k = length (layers b) + n - 1 \<and> m = c)" for k m
    unfolding ly' in_layer_count_last [OF li1] il1 by simp
  have bd: "m < c" if "in_layer (layers b) k m" for k m
    using li that by (auto simp: layers_inv_def)
  from li have "2 \<le> length (layers b)" by (simp add: layers_inv_def)
  then have ne0: "layers b \<noteq> []" by auto
  show ?thesis
    unfolding order_inv_def
  proof (intro allI impI, elim conjE)
    fix c' r i j
    assume c': "c' < Suc c" and r: "L \<le> r" "r < L + V" and e: "at2 S r c'"
      and i: "in_layer (layers ?b') i c'" and j: "in_layer (layers ?b') j (r - L)"
    from c' c have "c' < V" by simp
    with topo r e have "r < L + c'" unfolding topological_iff by blast
    with r have p: "r - L < c'" by simp
    with c' have pc: "r - L \<noteq> c" by simp
    with j have j0: "in_layer (layers b) j (r - L)" by (simp add: il')
    show "j < i"
    proof (cases "c' = c")
      case False
      with i have i0: "in_layer (layers b) i c'" by (simp add: il')
      from False c' have "c' < c" by simp
      with ord r e have "\<forall>i j. in_layer (layers b) i c' \<and> in_layer (layers b) j (r - L) \<longrightarrow> j < i"
        unfolding order_inv_def by blast
      with i0 j0 show ?thesis by blast
    next
      case True
      with i bd have ia: "i = length (layers b) + n - 1" by (auto simp: il')
      from j0 have jl: "j < length (layers b)" and jb: "base (layers b ! j) \<le> int (r - L)"
        by (auto simp: in_layer_def)
      show ?thesis
      proof (cases "n = 0")
        case False
        with ia jl show ?thesis by simp
      next
        case n: True
        with n0 True e r have "int r - int L < layer_max b" by simp
        with r lm have "int (r - L) < base (last (layers b))" by auto
        with jb ne0 have "j \<noteq> length (layers b) - 1"
          by (auto simp: last_conv_nth)
        with jl ia n show ?thesis by simp
      qed
    qed
  qed
qed

lemma order_inv_build:
  assumes "topological S L V"
  shows "order_inv S L V V (layers (build_graph S L V))"
proof -
  have "graph_inv S L V V (build_graph S L V) \<and> order_inv S L V V (layers (build_graph S L V))"
    unfolding build_graph_def
  proof (rule upt_loop_invariant
      [where P = "\<lambda>c b. graph_inv S L V c b \<and> order_inv S L V c (layers b)"])
    show "graph_inv S L V 0 (init_build L V) \<and> order_inv S L V 0 (layers (init_build L V))"
      by (simp add: graph_inv_init order_inv_def)
  next
    fix c b assume "c < V" "graph_inv S L V c b \<and> order_inv S L V c (layers b)"
    then show "graph_inv S L V (Suc c) (visit_column S L V b c) \<and>
        order_inv S L V (Suc c) (layers (visit_column S L V b c))"
      using assms by (auto intro: graph_inv_step order_inv_step)
  qed
  then show ?thesis ..
qed

subsection \<open>The offset arrays\<close>

lemma fill_buckets_ok:
  assumes "l0 \<le> nb" "r < T" "length bases = T * Suc nb" "filled (r * Suc nb + Suc l0) i bases"
    "i + sum_list (map (\<lambda>l. length (cv ! l ! r)) [l0..<nb]) \<le> length chi"
  shows "\<exists>chi' bases'. fill_buckets cv (T, Suc nb) r [l0..<nb] (chi, bases, i) =
            Inr (chi', bases', i + sum_list (map (\<lambda>l. length (cv ! l ! r)) [l0..<nb])) \<and>
          length chi' = length chi \<and> length bases' = T * Suc nb \<and>
          filled (Suc r * Suc nb) (i + sum_list (map (\<lambda>l. length (cv ! l ! r)) [l0..<nb])) bases'"
  using assms
proof (induction "nb - l0" arbitrary: l0 chi bases i)
  case 0
  then have "l0 = nb" by simp
  moreover have "r * Suc nb + Suc nb = Suc r * Suc nb" by simp
  ultimately show ?case using "0.prems" by (simp only: upt_rec [of nb nb]) simp
next
  case (Suc n)
  then have lt: "l0 < nb" by simp
  then have upt: "[l0..<nb] = l0 # [Suc l0..<nb]" by (simp add: upt_rec)
  let ?rest = "sum_list (map (\<lambda>l. length (cv ! l ! r)) [Suc l0..<nb])"
  let ?i1 = "i + length (cv ! l0 ! r)"
  from Suc.prems(5) upt have "i + length (cv ! l0 ! r) \<le> length chi" by simp
  from put_all_ok [OF this] obtain chi1 where
    p1: "put_all chi i (cv ! l0 ! r) = Inr (chi1, ?i1)" "length chi1 = length chi"
    by auto
  have "Suc r * Suc nb \<le> T * Suc nb"
    using Suc.prems(2) by (intro mult_le_mono1) simp
  then have pos: "r * Suc nb + Suc l0 < length bases"
    using lt Suc.prems(3) by simp
  have b1: "put2 (T, Suc nb) bases r (Suc l0) (int ?i1) =
      Inr (bases[r * Suc nb + Suc l0 := int ?i1])"
    using lt Suc.prems(2) by (simp add: put2_def)
  have f1: "filled (r * Suc nb + Suc (Suc l0)) ?i1 (bases[r * Suc nb + Suc l0 := int ?i1])"
    using filled_step [OF Suc.prems(4) pos, of ?i1] by simp
  have "n = nb - Suc l0" using Suc.hyps(2) by simp
  from Suc.hyps(1) [OF this, of "bases[r * Suc nb + Suc l0 := int ?i1]" ?i1 chi1]
    lt Suc.prems(2,3,5) f1 upt p1(2)
  obtain chi' bases' where
    "fill_buckets cv (T, Suc nb) r [Suc l0..<nb] (chi1, bases[r * Suc nb + Suc l0 := int ?i1], ?i1) =
       Inr (chi', bases', ?i1 + ?rest)"
    "length chi' = length chi" "length bases' = T * Suc nb"
    "filled (Suc r * Suc nb) (?i1 + ?rest) bases'"
    by auto
  then show ?case
    using p1 b1 upt by (simp add: add.assoc)
qed

lemma fill_children_ok:
  assumes "r0 \<le> T" "length cv = nb" "length bases = T * Suc nb" "filled (r0 * Suc nb) i bases"
    "i + sum_list (map (\<lambda>r. sum_list (map (\<lambda>l. length (cv ! l ! r)) [0..<nb])) [r0..<T])
       \<le> length chi"
  shows "\<exists>chi' bases' i'. fill_children cv (T, Suc nb) [r0..<T] (chi, bases, i) =
            Inr (chi', bases', i') \<and>
          length bases' = T * Suc nb \<and> filled (T * Suc nb) i' bases'"
  using assms
proof (induction "T - r0" arbitrary: r0 chi bases i)
  case 0
  then show ?case by simp
next
  case (Suc n)
  then have lt: "r0 < T" by simp
  then have upt: "[r0..<T] = r0 # [Suc r0..<T]" by (simp add: upt_rec)
  let ?row = "sum_list (map (\<lambda>l. length (cv ! l ! r0)) [0..<nb])"
  have "Suc r0 * Suc nb \<le> T * Suc nb"
    using lt by (intro mult_le_mono1) simp
  then have pos: "r0 * Suc nb < length bases"
    using Suc.prems(3) by simp
  have b1: "put2 (T, Suc nb) bases r0 0 (int i) = Inr (bases[r0 * Suc nb := int i])"
    using lt by (simp add: put2_def)
  have f1: "filled (r0 * Suc nb + Suc 0) i (bases[r0 * Suc nb := int i])"
    using filled_step [OF Suc.prems(4) pos, of i] by simp
  have "i + ?row \<le> length chi"
    using Suc.prems(5) upt by simp
  from fill_buckets_ok [of 0 nb r0 T "bases[r0 * Suc nb := int i]" i cv chi, OF _ lt _ f1 this]
    Suc.prems(3)
  obtain chi1 bases1 where
    fb: "fill_buckets cv (T, Suc nb) r0 [0..<nb] (chi, bases[r0 * Suc nb := int i], i) =
       Inr (chi1, bases1, i + ?row)"
    and l1: "length chi1 = length chi" "length bases1 = T * Suc nb"
    and f2: "filled (Suc r0 * Suc nb) (i + ?row) bases1"
    by auto
  have "n = T - Suc r0" using Suc.hyps(2) by simp
  from Suc.hyps(1) [OF this, of bases1 "i + ?row" chi1] lt Suc.prems(2,5) l1 f2 upt
  obtain chi' bases' i' where
    "fill_children cv (T, Suc nb) [Suc r0..<T] (chi1, bases1, i + ?row) = Inr (chi', bases', i')"
    "length bases' = T * Suc nb" "filled (T * Suc nb) i' bases'"
    by (auto simp: add.assoc)
  then show ?case
    using b1 fb upt Suc.prems(2) by simp
qed

subsection \<open>The latent neighbours\<close>

lemma sum_list_lengths_append_at:
  assumes "k < length lnv"
  shows "sum_list (map length (lnv[k := lnv ! k @ [v]])) = Suc (sum_list (map length lnv))"
proof -
  have "map length (lnv[k := lnv ! k @ [v]]) = (map length lnv)[k := Suc (length (lnv ! k))]"
    by (simp add: map_update)
  moreover have "length (lnv ! k) \<le> sum_list (map length lnv)"
    using assms by (intro member_le_sum_list) auto
  ultimately show ?thesis
    using assms by (simp add: sum_list_update)
qed

lemma push_latent_ok:
  assumes "0 \<le> a" "b < int (length lnv)"
  shows "push_latent v [a..b] (lnv, n) =
           Inr (map (\<lambda>l. lnv ! l @ (if a \<le> int l \<and> int l \<le> b then [v] else []))
                  [0..<length lnv],
                n + nat (b - a + 1))"
  using assms
proof (induction "nat (b - a + 1)" arbitrary: a lnv n)
  case 0
  then have "b < a" by simp
  then have "[a..b] = []" by simp
  moreover have "map (\<lambda>l. lnv ! l @ (if a \<le> int l \<and> int l \<le> b then [v] else []))
      [0..<length lnv] = map ((!) lnv) [0..<length lnv]"
    using \<open>b < a\<close> by (intro map_cong) auto
  ultimately show ?case using \<open>b < a\<close> by (simp add: map_nth)
next
  case (Suc m)
  then have le: "a \<le> b" by simp
  then have upto: "[a..b] = a # [a + 1..b]" by (simp add: upto_rec1)
  let ?lnv1 = "lnv[nat a := lnv ! nat a @ [v]]"
  from le Suc.prems have a: "nat a < length lnv" by simp
  have m: "m = nat (b - (a + 1) + 1)" using Suc.hyps(2) by simp
  have "push_latent v [a + 1..b] (?lnv1, Suc n) =
      Inr (map (\<lambda>l. ?lnv1 ! l @ (if a + 1 \<le> int l \<and> int l \<le> b then [v] else []))
             [0..<length ?lnv1], Suc n + nat (b - (a + 1) + 1))"
    using Suc.prems by (intro Suc.hyps(1) [OF m]) auto
  moreover have "map (\<lambda>l. ?lnv1 ! l @ (if a + 1 \<le> int l \<and> int l \<le> b then [v] else []))
             [0..<length ?lnv1] =
      map (\<lambda>l. lnv ! l @ (if a \<le> int l \<and> int l \<le> b then [v] else [])) [0..<length lnv]"
  proof (rule nth_equalityI)
    show "length (map (\<lambda>l. ?lnv1 ! l @ (if a + 1 \<le> int l \<and> int l \<le> b then [v] else []))
             [0..<length ?lnv1]) =
      length (map (\<lambda>l. lnv ! l @ (if a \<le> int l \<and> int l \<le> b then [v] else []))
             [0..<length lnv])" by simp
  next
    fix l assume "l < length (map (\<lambda>l. ?lnv1 ! l @
        (if a + 1 \<le> int l \<and> int l \<le> b then [v] else [])) [0..<length ?lnv1])"
    then have l: "l < length lnv" by simp
    show "map (\<lambda>l. ?lnv1 ! l @ (if a + 1 \<le> int l \<and> int l \<le> b then [v] else []))
             [0..<length ?lnv1] ! l =
      map (\<lambda>l. lnv ! l @ (if a \<le> int l \<and> int l \<le> b then [v] else [])) [0..<length lnv] ! l"
    proof (cases "l = nat a")
      case True
      with l le Suc.prems(1) show ?thesis by simp
    next
      case False
      with l Suc.prems(1) have "a + 1 \<le> int l \<longleftrightarrow> a \<le> int l" by auto
      with l False show ?thesis by simp
    qed
  qed
  moreover have "Suc n + nat (b - (a + 1) + 1) = n + nat (b - a + 1)"
    using le by simp
  ultimately show ?case
    using a Suc.prems(1) upto by simp
qed

lemma push_latent_unset:
  "push_latent v [fst (- 1, - 1)..snd (- 1, - 1)] (lnv, n) = Inl (Vector_out_of_bounds (- 1))"
proof -
  have "[- 1..- 1::int] = [- 1]" by (simp add: upto_rec1)
  then show ?thesis by simp
qed

lemma collect_latent_neighbors_fails:
  assumes "\<forall>r\<in>set rs. rg ! r = (- 1, - 1) \<or> (0 \<le> fst (rg ! r) \<and> snd (rg ! r) < int (length lnv))"
    and "\<exists>r\<in>set rs. rg ! r = (- 1, - 1)"
  shows "collect_latent_neighbors rg L rs (lnv, n) = Inl (Vector_out_of_bounds (- 1))"
  using assms
proof (induction rs arbitrary: lnv n)
  case Nil
  then show ?case by simp
next
  case (Cons r rs)
  show ?case
  proof (cases "rg ! r = (- 1, - 1)")
    case True
    then show ?thesis using push_latent_unset [of "int r - int L" lnv n] by simp
  next
    case False
    with Cons.prems have ok: "0 \<le> fst (rg ! r)" "snd (rg ! r) < int (length lnv)"
      and rest: "\<exists>r\<in>set rs. rg ! r = (- 1, - 1)"
      by auto
    note p = push_latent_ok [OF ok, of "int r - int L" n]
    have "collect_latent_neighbors rg L rs
        (map (\<lambda>l. lnv ! l @ (if fst (rg ! r) \<le> int l \<and> int l \<le> snd (rg ! r)
                             then [int r - int L] else [])) [0..<length lnv],
         n + nat (snd (rg ! r) - fst (rg ! r) + 1)) = Inl (Vector_out_of_bounds (- 1))"
      using Cons.prems(1) rest by (intro Cons.IH) auto
    with p show ?thesis by simp
  qed
qed

lemma collect_latent_neighbors_ok:
  assumes "\<forall>r\<in>set rs. 0 \<le> fst (rg ! r) \<and> snd (rg ! r) < int (length lnv)"
  shows "\<exists>lnv' n'. collect_latent_neighbors rg L rs (lnv, n) = Inr (lnv', n') \<and>
           length lnv' = length lnv \<and>
           (\<forall>l<length lnv. lnv' ! l = lnv ! l @ map (\<lambda>r. int r - int L) (present rg l rs))"
  using assms
proof (induction rs arbitrary: lnv n)
  case Nil
  then show ?case by (simp add: present_def)
next
  case (Cons r rs)
  then have ok: "0 \<le> fst (rg ! r)" "snd (rg ! r) < int (length lnv)" by auto
  let ?lnv1 = "map (\<lambda>l. lnv ! l @ (if fst (rg ! r) \<le> int l \<and> int l \<le> snd (rg ! r)
                             then [int r - int L] else [])) [0..<length lnv]"
  let ?n1 = "n + nat (snd (rg ! r) - fst (rg ! r) + 1)"
  note p = push_latent_ok [OF ok, of "int r - int L" n]
  have "\<forall>r\<in>set rs. 0 \<le> fst (rg ! r) \<and> snd (rg ! r) < int (length ?lnv1)"
    using Cons.prems by simp
  from Cons.IH [OF this, of ?n1] obtain lnv' n' where
    c: "collect_latent_neighbors rg L rs (?lnv1, ?n1) = Inr (lnv', n')"
    and l: "length lnv' = length lnv"
    and e: "\<forall>l<length lnv. lnv' ! l = ?lnv1 ! l @ map (\<lambda>r. int r - int L) (present rg l rs)"
    by auto
  have "\<forall>l<length lnv. lnv' ! l = lnv ! l @ map (\<lambda>r. int r - int L) (present rg l (r # rs))"
    using e by (auto simp: present_def)
  with p c l show ?case by simp
qed

lemma push_latent_total:
  "push_latent v ls (lnv, n) = Inr (lnv', n') \<Longrightarrow> n = sum_list (map length lnv) \<Longrightarrow>
   n' = sum_list (map length lnv')"
proof (induction ls arbitrary: lnv n)
  case Nil
  then show ?case by auto
next
  case (Cons l ls)
  from Cons.prems(1) have ok: "0 \<le> l" "l < int (length lnv)"
    and rest: "push_latent v ls (lnv[nat l := lnv ! nat l @ [v]], Suc n) = Inr (lnv', n')"
    by (auto split: if_splits)
  from ok have "nat l < length lnv" by simp
  from sum_list_lengths_append_at [OF this, of v] Cons.prems(2)
  have "Suc n = sum_list (map length (lnv[nat l := lnv ! nat l @ [v]]))" by simp
  from Cons.IH [OF rest this] show ?case .
qed

lemma collect_latent_neighbors_total:
  "collect_latent_neighbors rg L rs (lnv, n) = Inr (lnv', n') \<Longrightarrow>
   n = sum_list (map length lnv) \<Longrightarrow> n' = sum_list (map length lnv')"
proof (induction rs arbitrary: lnv n)
  case Nil
  then show ?case by auto
next
  case (Cons r rs)
  from Cons.prems(1) obtain lnv1 n1 where
    p: "push_latent (int r - int L) [fst (rg ! r)..snd (rg ! r)] (lnv, n) = Inr (lnv1, n1)"
    and c: "collect_latent_neighbors rg L rs (lnv1, n1) = Inr (lnv', n')"
    by (auto split: sum.splits)
  from push_latent_total [OF p Cons.prems(2)] have "n1 = sum_list (map length lnv1)" .
  from Cons.IH [OF c this] show ?case .
qed

lemma fill_latent_neighbors_ok:
  assumes "l0 \<le> nl" "length lnv = nl" "length lv = nl" "length bases = Suc nl"
    "filled (Suc l0) i bases"
    "i + sum_list (map (\<lambda>l. length (lnv ! l)) [l0..<nl]) \<le> length nbr"
  shows "\<exists>nbr' bases' lv' i'.
          fill_latent_neighbors lnv [l0..<nl] (nbr, bases, lv, i) = Inr (nbr', bases', lv', i') \<and>
          length lv' = nl \<and>
          (\<forall>l<nl. lv' ! l = (if l0 \<le> l then (lv ! l)\<lparr>lat_width := length (lnv ! l)\<rparr> else lv ! l))"
  using assms
proof (induction "nl - l0" arbitrary: l0 nbr bases lv i)
  case 0
  then show ?case by simp
next
  case (Suc n)
  then have lt: "l0 < nl" by simp
  then have upt: "[l0..<nl] = l0 # [Suc l0..<nl]" by (simp add: upt_rec)
  let ?i1 = "i + length (lnv ! l0)"
  let ?lv1 = "lv[l0 := (lv ! l0)\<lparr>lat_width := length (lnv ! l0)\<rparr>]"
  from Suc.prems(6) upt have "i + length (lnv ! l0) \<le> length nbr" by simp
  from put_all_ok [OF this] obtain nbr1 where
    p1: "put_all nbr i (lnv ! l0) = Inr (nbr1, ?i1)" "length nbr1 = length nbr"
    by auto
  have b1: "put bases (Suc l0) (int ?i1) = Inr (bases[Suc l0 := int ?i1])"
    using lt Suc.prems(4) by (simp add: put_def)
  have f1: "filled (Suc (Suc l0)) ?i1 (bases[Suc l0 := int ?i1])"
    using Suc.prems(5) lt Suc.prems(4) by (intro filled_step) auto
  have "n = nl - Suc l0" using Suc.hyps(2) by simp
  from Suc.hyps(1) [OF this, of ?lv1 "bases[Suc l0 := int ?i1]" ?i1 nbr1]
    lt Suc.prems(2,3,4,6) f1 upt p1(2)
  obtain nbr' bases' lv' i' where
    r: "fill_latent_neighbors lnv [Suc l0..<nl] (nbr1, bases[Suc l0 := int ?i1], ?lv1, ?i1) =
       Inr (nbr', bases', lv', i')"
    and l: "length lv' = nl"
    and e: "\<forall>l<nl. lv' ! l =
        (if Suc l0 \<le> l then (?lv1 ! l)\<lparr>lat_width := length (lnv ! l)\<rparr> else ?lv1 ! l)"
    by (auto simp: add.assoc)
  have "\<forall>l<nl. lv' ! l = (if l0 \<le> l then (lv ! l)\<lparr>lat_width := length (lnv ! l)\<rparr> else lv ! l)"
  proof (intro allI impI)
    fix l assume "l < nl"
    with e have "lv' ! l =
        (if Suc l0 \<le> l then (?lv1 ! l)\<lparr>lat_width := length (lnv ! l)\<rparr> else ?lv1 ! l)"
      by simp
    then show "lv' ! l = (if l0 \<le> l then (lv ! l)\<lparr>lat_width := length (lnv ! l)\<rparr> else lv ! l)"
      using lt Suc.prems(3) by (cases "l = l0") auto
  qed
  with r l show ?case
    using p1 b1 upt lt Suc.prems(3) by simp
qed

subsection \<open>make\_structures as a whole\<close>

lemma sum_list_exchange:
  "sum_list (map (\<lambda>l. sum_list (map (\<lambda>r. f l r) rs)) ls) =
   sum_list (map (\<lambda>r. sum_list (map (\<lambda>l. f l r) ls)) rs)"
  for f :: "'a \<Rightarrow> 'b \<Rightarrow> nat"
  by (induction ls) (simp_all add: sum_list_addf)

lemma bucket_total_by_rows:
  assumes "\<forall>bk\<in>set cv. length bk = T"
  shows "bucket_total cv =
    sum_list (map (\<lambda>r. sum_list (map (\<lambda>l. length (cv ! l ! r)) [0..<length cv])) [0..<T])"
proof -
  have "map (\<lambda>l. sum_list (map length (cv ! l))) [0..<length cv] =
      map (\<lambda>bk. sum_list (map length bk)) (map ((!) cv) [0..<length cv])"
    by simp
  then have "bucket_total cv = sum_list (map (\<lambda>l. sum_list (map length (cv ! l))) [0..<length cv])"
    unfolding bucket_total_def by (simp only: map_nth)
  also have "\<dots> = sum_list (map (\<lambda>l. sum_list (map (\<lambda>r. length (cv ! l ! r)) [0..<T]))
      [0..<length cv])"
  proof (rule arg_cong [where f = sum_list], rule map_cong [OF refl])
    fix l assume "l \<in> set [0..<length cv]"
    then have "length (cv ! l) = T" using assms by simp
    from sum_list_lengths_nth [OF this]
    show "sum_list (map length (cv ! l)) = sum_list (map (\<lambda>r. length (cv ! l ! r)) [0..<T])"
      by simp
  qed
  also have "\<dots> = sum_list (map (\<lambda>r. sum_list (map (\<lambda>l. length (cv ! l ! r)) [0..<length cv]))
      [0..<T])"
    by (rule sum_list_exchange)
  finally show ?thesis .
qed

lemma ranges_of_build:
  assumes "r < L"
  shows "childless S V r \<Longrightarrow> ranges (build_graph S L V) ! r = (- 1, - 1)"
    and "\<not> childless S V r \<Longrightarrow>
      0 \<le> fst (ranges (build_graph S L V) ! r) \<and>
      fst (ranges (build_graph S L V) ! r) \<le> snd (ranges (build_graph S L V) ! r) \<and>
      snd (ranges (build_graph S L V) ! r) < int (length (layers (build_graph S L V))) - 1"
proof -
  let ?b = "build_graph S L V"
  let ?\<rho> = "ranges ?b ! r"
  from graph_inv_build [of S L V] assms have ri: "range_inv S V (layers ?b) r ?\<rho>"
    by (simp add: graph_inv_def)
  show "childless S V r \<Longrightarrow> ?\<rho> = (- 1, - 1)"
    using ri by (simp add: range_inv_def childless_iff)
  assume "\<not> childless S V r"
  then have "\<not> (\<forall>c'<V. \<not> at2 S r c')" by (simp add: childless_iff)
  with ri have "0 \<le> fst ?\<rho> \<and> 0 \<le> snd ?\<rho> \<and>
        (\<exists>c'<V. at2 S r c' \<and> in_layer (layers ?b) (nat (fst ?\<rho>) + 1) c') \<and>
        (\<exists>c'<V. at2 S r c' \<and> in_layer (layers ?b) (nat (snd ?\<rho>) + 1) c') \<and>
        (\<forall>c'<V. at2 S r c' \<longrightarrow>
           (\<forall>k. in_layer (layers ?b) k c' \<longrightarrow> fst ?\<rho> + 1 \<le> int k \<and> int k \<le> snd ?\<rho> + 1))"
    unfolding range_inv_def by (simp only: if_False) blast
  then have p: "0 \<le> fst ?\<rho>" "0 \<le> snd ?\<rho>"
    and w1: "\<exists>c'<V. at2 S r c' \<and> in_layer (layers ?b) (nat (fst ?\<rho>) + 1) c'"
    and w2: "\<exists>c'<V. at2 S r c' \<and> in_layer (layers ?b) (nat (snd ?\<rho>) + 1) c'"
    and bnd: "\<forall>c'<V. at2 S r c' \<longrightarrow>
           (\<forall>k. in_layer (layers ?b) k c' \<longrightarrow> fst ?\<rho> + 1 \<le> int k \<and> int k \<le> snd ?\<rho> + 1)"
    by blast+
  from w1 bnd have "int (nat (fst ?\<rho>) + 1) \<le> snd ?\<rho> + 1" by blast
  with p have "fst ?\<rho> \<le> snd ?\<rho>" by simp
  moreover from w2 have "nat (snd ?\<rho>) + 1 < length (layers ?b)"
    by (auto simp: in_layer_def)
  with p have "snd ?\<rho> < int (length (layers ?b)) - 1" by linarith
  ultimately show "0 \<le> fst ?\<rho> \<and> fst ?\<rho> \<le> snd ?\<rho> \<and> snd ?\<rho> < int (length (layers ?b)) - 1"
    using p by simp
qed

lemma fill_parents_of_build:
  "\<exists>par bases i. fill_parents (parents_vec (build_graph S L V)) [0..<V]
       (replicate (edge_count (build_graph S L V)) 0, replicate (V + 1) 0, 0) =
         Inr (par, bases, i) \<and>
     sorted bases \<and> last bases = int (edge_count (build_graph S L V))"
proof -
  let ?b = "build_graph S L V"
  from graph_inv_build [of S L V]
  have pv: "parents_vec ?b = map (\<lambda>c'. if c' < V then parents_of S L V c' else []) [0..<V]"
    and ec: "edge_count ?b = sum_list (map (\<lambda>c'. length (parents_of S L V c')) [0..<V])"
    by (auto simp: graph_inv_def)
  have eq: "map (\<lambda>c. length (parents_vec ?b ! c)) [0..<V] =
      map (\<lambda>c'. length (parents_of S L V c')) [0..<V]"
    by (rule map_cong) (auto simp: pv)
  have tot: "sum_list (map (\<lambda>c. length (parents_vec ?b ! c)) [0..<V]) = edge_count ?b"
    unfolding eq ec ..
  have "filled (Suc 0) 0 (replicate (V + 1) 0)"
    by (rule filled_zeros) simp
  from fill_parents_ok [of 0 V "replicate (V + 1) 0" 0 "parents_vec ?b"
      "replicate (edge_count ?b) 0", OF _ _ this] tot
  obtain par' bases' where
    f: "fill_parents (parents_vec ?b) [0..<V]
          (replicate (edge_count ?b) 0, replicate (V + 1) 0, 0) =
        Inr (par', bases', edge_count ?b)"
    and l: "length bases' = Suc V" and fl: "filled (Suc V) (edge_count ?b) bases'"
    by auto
  from fl l have "filled (length bases') (edge_count ?b) bases'" by simp
  from filled_all [OF this] l have "sorted bases'" "last bases' = int (edge_count ?b)"
    by auto
  with f show ?thesis by blast
qed

lemma fill_children_of_build:
  "\<exists>chi bases i. fill_children (children_vec (build_graph S L V))
       (L + V, length (layers (build_graph S L V))) [0..<L + V]
       (replicate (edge_count (build_graph S L V)) 0,
        replicate ((L + V) * length (layers (build_graph S L V))) 0, 0) = Inr (chi, bases, i) \<and>
     sorted bases"
proof -
  let ?b = "build_graph S L V"
  let ?nb = "length (children_vec ?b)"
  from graph_inv_build [of S L V]
  have lc: "length (layers ?b) = Suc ?nb"
    and bl: "\<forall>bk\<in>set (children_vec ?b). length bk = L + V"
    and bt: "bucket_total (children_vec ?b) = edge_count ?b"
    by (auto simp: graph_inv_def)
  from bucket_total_by_rows [OF bl] bt
  have tot: "sum_list (map (\<lambda>r. sum_list (map (\<lambda>l. length (children_vec ?b ! l ! r)) [0..<?nb]))
      [0..<L + V]) = edge_count ?b"
    by simp
  have "filled (0 * Suc ?nb) 0 (replicate ((L + V) * Suc ?nb) 0)"
    by (simp add: filled_nothing)
  from fill_children_ok [of 0 "L + V" "children_vec ?b" ?nb
      "replicate ((L + V) * Suc ?nb) 0" 0 "replicate (edge_count ?b) 0",
      OF _ refl _ this] tot
  obtain chi' bases' i' where
    f: "fill_children (children_vec ?b) (L + V, Suc ?nb) [0..<L + V]
          (replicate (edge_count ?b) 0, replicate ((L + V) * Suc ?nb) 0, 0) =
        Inr (chi', bases', i')"
    and l: "length bases' = (L + V) * Suc ?nb" and fl: "filled ((L + V) * Suc ?nb) i' bases'"
    by auto
  from fl l have "filled (length bases') i' bases'" by simp
  from filled_all [OF this] have "sorted bases'" by simp
  with f show ?thesis unfolding lc by blast
qed

lemma make_structures_fails:
  assumes "\<exists>r<latent_size s. childless (structure_t s) (visible_size s) r"
  shows "make_structures s = Inl (Vector_out_of_bounds (- 1))"
proof -
  let ?S = "structure_t s" and ?L = "latent_size s" and ?V = "visible_size s"
  let ?b = "build_graph ?S ?L ?V"
  from fill_parents_of_build [of ?S ?L ?V] obtain par pb i1 where
    fp: "fill_parents (parents_vec ?b) [0..<?V]
       (replicate (edge_count ?b) 0, replicate (?V + 1) 0, 0) = Inr (par, pb, i1)"
    by blast
  from fill_children_of_build [of ?S ?L ?V] obtain chi cb i2 where
    fc: "fill_children (children_vec ?b) (?L + ?V, length (layers ?b)) [0..<?L + ?V]
       (replicate (edge_count ?b) 0, replicate ((?L + ?V) * length (layers ?b)) 0, 0) =
         Inr (chi, cb, i2)"
    by blast
  have rg: "\<forall>r\<in>set [0..<?L]. ranges ?b ! r = (- 1, - 1) \<or>
      (0 \<le> fst (ranges ?b ! r) \<and>
       snd (ranges ?b ! r) < int (length (replicate (length (layers ?b)) ([]::int list))))"
  proof
    fix r assume "r \<in> set [0..<?L]"
    then have r: "r < ?L" by simp
    from ranges_of_build [OF r, of ?S ?V]
    show "ranges ?b ! r = (- 1, - 1) \<or>
      (0 \<le> fst (ranges ?b ! r) \<and>
       snd (ranges ?b ! r) < int (length (replicate (length (layers ?b)) ([]::int list))))"
      by (cases "childless ?S ?V r") auto
  qed
  have "\<exists>r\<in>set [0..<?L]. ranges ?b ! r = (- 1, - 1)"
  proof -
    from assms obtain r where r: "r < ?L" "childless ?S ?V r" by blast
    from ranges_of_build(1) [OF this] r(1) show ?thesis by auto
  qed
  from collect_latent_neighbors_fails [OF rg this]
  have "collect_latent_neighbors (ranges ?b) ?L [0..<?L] (replicate (length (layers ?b)) [], 0) =
      Inl (Vector_out_of_bounds (- 1))" .
  with fp fc show ?thesis
    by (simp add: make_structures_def Let_def)
qed

lemma make_structures_ok:
  assumes "\<forall>r<latent_size s. \<not> childless (structure_t s) (visible_size s) r"
  shows "\<exists>s'. make_structures s = Inr s' \<and>
           latent_presence_range s' =
             ranges (build_graph (structure_t s) (latent_size s) (visible_size s)) \<and>
           sorted (parents_bases s') \<and>
           last (parents_bases s') =
             int (edge_count (build_graph (structure_t s) (latent_size s) (visible_size s))) \<and>
           sorted (children_bases s') \<and>
           length (layers_vec s') =
             length (layers (build_graph (structure_t s) (latent_size s) (visible_size s))) \<and>
           (\<forall>l<length (layers_vec s'). layers_vec s' ! l =
              (layers (build_graph (structure_t s) (latent_size s) (visible_size s)) ! l)
                \<lparr>lat_width := length (present (latent_presence_range s') l [0..<latent_size s])\<rparr>)"
proof -
  let ?S = "structure_t s" and ?L = "latent_size s" and ?V = "visible_size s"
  let ?b = "build_graph ?S ?L ?V"
  let ?nl = "length (layers ?b)"
  from fill_parents_of_build [of ?S ?L ?V] obtain par pb i1 where
    fp: "fill_parents (parents_vec ?b) [0..<?V]
       (replicate (edge_count ?b) 0, replicate (?V + 1) 0, 0) = Inr (par, pb, i1)"
    and pbs: "sorted pb" "last pb = int (edge_count ?b)"
    by blast
  from fill_children_of_build [of ?S ?L ?V] obtain chi cb i2 where
    fc: "fill_children (children_vec ?b) (?L + ?V, ?nl) [0..<?L + ?V]
       (replicate (edge_count ?b) 0, replicate ((?L + ?V) * ?nl) 0, 0) = Inr (chi, cb, i2)"
    and cbs: "sorted cb"
    by blast
  have rg: "\<forall>r\<in>set [0..<?L]. 0 \<le> fst (ranges ?b ! r) \<and>
       snd (ranges ?b ! r) < int (length (replicate ?nl ([]::int list)))"
  proof
    fix r assume "r \<in> set [0..<?L]"
    then have r: "r < ?L" by simp
    with assms have "\<not> childless ?S ?V r" by simp
    from ranges_of_build(2) [OF r this]
    show "0 \<le> fst (ranges ?b ! r) \<and>
       snd (ranges ?b ! r) < int (length (replicate ?nl ([]::int list)))"
      by simp
  qed
  from collect_latent_neighbors_ok [OF rg, of ?L 0] obtain lnv n where
    cl: "collect_latent_neighbors (ranges ?b) ?L [0..<?L] (replicate ?nl [], 0) = Inr (lnv, n)"
    and ll: "length lnv = ?nl"
    and le: "\<forall>l<?nl. lnv ! l = replicate ?nl [] ! l @
        map (\<lambda>r. int r - int ?L) (present (ranges ?b) l [0..<?L])"
    by auto
  have n: "n = sum_list (map length lnv)"
    by (rule collect_latent_neighbors_total [OF cl]) simp
  have tot: "0 + sum_list (map (\<lambda>l. length (lnv ! l)) [0..<?nl]) \<le> length (replicate n (0::int))"
    using sum_list_lengths_nth [OF ll] n by simp
  have "filled (Suc 0) 0 (replicate (length lnv + 1) 0)"
    by (rule filled_zeros) simp
  from fill_latent_neighbors_ok [of 0 ?nl lnv "layers ?b" "replicate (length lnv + 1) 0" 0
      "replicate n 0", OF _ ll refl _ _ tot] this ll
  obtain nbr nb lv i3 where
    fl: "fill_latent_neighbors lnv [0..<?nl]
          (replicate n 0, replicate (length lnv + 1) 0, layers ?b, 0) = Inr (nbr, nb, lv, i3)"
    and lvl: "length lv = ?nl"
    and lve: "\<forall>l<?nl. lv ! l = (layers ?b ! l)\<lparr>lat_width := length (lnv ! l)\<rparr>"
    by auto
  have "\<forall>l<?nl. lv ! l =
      (layers ?b ! l)\<lparr>lat_width := length (present (ranges ?b) l [0..<?L])\<rparr>"
    using lve le by simp
  with fp fc cl fl ll lvl pbs cbs show ?thesis
    by (simp add: make_structures_def Let_def)
qed

lemma length_filter_indicator:
  "length (filter P xs) = sum_list (map (\<lambda>x. if P x then 1 else 0) xs)"
  by (induction xs) auto

lemma sum_list_by_rows:
  "sum_list (map g [0..<T * V]) =
   sum_list (map (\<lambda>r. sum_list (map (\<lambda>c. g (r * V + c)) [0..<V])) [0..<T])"
  for g :: "nat \<Rightarrow> nat"
proof (induction T)
  case 0
  show ?case by simp
next
  case (Suc T)
  have "Suc T * V = T * V + V" by simp
  then have a: "[0..<Suc T * V] = [0..<T * V] @ [T * V..<T * V + V]"
    using upt_add_eq_append [of 0 "T * V" V] by (simp only: le0)
  have "map (\<lambda>c. c + T * V) [0..<V] = [T * V..<V + T * V]"
    by (rule map_add_upt)
  then have b: "[T * V..<T * V + V] = map (\<lambda>c. T * V + c) [0..<V]"
    by (simp only: add.commute)
  have "sum_list (map g [0..<Suc T * V]) =
      sum_list (map g [0..<T * V]) + sum_list (map (\<lambda>c. g (T * V + c)) [0..<V])"
    unfolding a b by (simp add: comp_def)
  with Suc show ?case by simp
qed

lemma edges_by_columns:
  assumes "well_formed S" "sizes S = [L + V, V]"
  shows "sum_list (map (\<lambda>c. length (parents_of S L V c)) [0..<V]) = edge_total S"
proof -
  let ?g = "\<lambda>k. if elems S ! k then 1 else 0 :: nat"
  from assms have len: "length (elems S) = (L + V) * V"
    by (simp add: well_formed_def)
  have "sum_list (map (\<lambda>c. length (parents_of S L V c)) [0..<V]) =
      sum_list (map (\<lambda>c. sum_list (map (\<lambda>r. ?g (r * V + c)) [0..<L + V])) [0..<V])"
    using assms(2) by (simp add: parents_of_def length_filter_indicator at2_def)
  also have "\<dots> = sum_list (map (\<lambda>r. sum_list (map (\<lambda>c. ?g (r * V + c)) [0..<V])) [0..<L + V])"
    by (rule sum_list_exchange)
  also have "\<dots> = sum_list (map ?g [0..<(L + V) * V])"
    by (rule sum_list_by_rows [symmetric])
  also have "\<dots> = sum_list (map (\<lambda>x. if x then 1 else 0) (map ((!) (elems S)) [0..<length (elems S)]))"
    by (simp add: len comp_def)
  also have "\<dots> = edge_total S"
    by (simp only: map_nth edge_total_def length_filter_indicator)
  finally show ?thesis .
qed

lemma constructed:
  assumes "new_SEMNANSolver h st pa dt noise = (Inr s, h')"
  shows "sizes st = [latent_size s + visible_size s, visible_size s]"
    and "structure_t s = st"
    and "\<forall>r<latent_size s. \<not> childless st (visible_size s) r"
    and "latent_presence_range s = ranges (build_graph st (latent_size s) (visible_size s))"
    and "sorted (parents_bases s)"
    and "last (parents_bases s) =
       int (edge_count (build_graph st (latent_size s) (visible_size s)))"
    and "sorted (children_bases s)"
    and "length (layers_vec s) =
       length (layers (build_graph st (latent_size s) (visible_size s)))"
    and "\<forall>l<length (layers_vec s). layers_vec s ! l =
       (layers (build_graph st (latent_size s) (visible_size s)) ! l)
         \<lparr>lat_width := length (present (latent_presence_range s) l [0..<latent_size s])\<rparr>"
proof -
  from assms obtain s0 where i: "init_parameters h st pa dt noise = (Inr s0, h')"
    and m: "make_structures s0 = Inr s"
    by (auto simp: new_SEMNANSolver_def split: prod.splits sum.splits)
  note v = init_parameters_views [OF i] and k = make_structures_keeps [OF m]
  show "sizes st = [latent_size s + visible_size s, visible_size s]"
    using v(1) k by simp
  show st: "structure_t s = st" using v(5) k by simp
  have nc: "\<forall>r<latent_size s0. \<not> childless (structure_t s0) (visible_size s0) r"
  proof (rule ccontr)
    assume "\<not> ?thesis"
    then have "\<exists>r<latent_size s0. childless (structure_t s0) (visible_size s0) r" by blast
    from make_structures_fails [OF this] m show False by simp
  qed
  then show "\<forall>r<latent_size s. \<not> childless st (visible_size s) r"
    using k v(5) by simp
  from make_structures_ok [OF nc] m k v(5)
  show "latent_presence_range s = ranges (build_graph st (latent_size s) (visible_size s))"
    and "sorted (parents_bases s)"
    and "last (parents_bases s) =
       int (edge_count (build_graph st (latent_size s) (visible_size s)))"
    and "sorted (children_bases s)"
    and "length (layers_vec s) =
       length (layers (build_graph st (latent_size s) (visible_size s)))"
    and "\<forall>l<length (layers_vec s). layers_vec s ! l =
       (layers (build_graph st (latent_size s) (visible_size s)) ! l)
         \<lparr>lat_width := length (present (latent_presence_range s) l [0..<latent_size s])\<rparr>"
    by auto
qed

lemma in_layer_constructed:
  assumes "new_SEMNANSolver h st pa dt noise = (Inr s, h')"
  shows "in_layer (layers_vec s) k n \<longleftrightarrow>
         in_layer (layers (build_graph st (latent_size s) (visible_size s))) k n"
  using constructed(8,9) [OF assms] by (auto simp: in_layer_def)

lemma new_chain_solver:
  "new_SEMNANSolver [] chain_structure undefined_tensor kFloat (\<lambda>k. 1) =
     (Inr chain_solver, chain_heap)"
  by code_simp

lemma chain_solver_layers:
  "latent_size chain_solver = 1 \<and> visible_size chain_solver = 3 \<and>
   map idx (tl (layers_vec chain_solver)) = [1, 2, 3, 4] \<and>
   map base (tl (layers_vec chain_solver)) = [0, 0, 1, 2] \<and>
   map num (tl (layers_vec chain_solver)) = [0, 1, 1, 1] \<and>
   map lat_width (layers_vec chain_solver) = [0, 1, 1, 1, 0] \<and>
   latent_presence_range chain_solver = [(1, 3)] \<and>
   parents_bases chain_solver = [0, 1, 2, 4] \<and>
   children_bases chain_solver =
     [0, 0, 1, 1, 2, 2, 2, 2, 3, 3, 3, 3, 3, 3, 4, 4, 4, 4, 4, 4]"
  by code_simp

lemma orphan_init:
  "latent_size (projr (fst (init_parameters [] orphan_structure undefined_tensor kFloat (\<lambda>k. 1)))) = 2 \<and>
   visible_size (projr (fst (init_parameters [] orphan_structure undefined_tensor kFloat (\<lambda>k. 1)))) = 1 \<and>
   structure_t (projr (fst (init_parameters [] orphan_structure undefined_tensor kFloat (\<lambda>k. 1)))) =
     orphan_structure"
  by code_simp

subsection \<open>The layering\<close>

text \<open>
  The boundary marker \<open>layer_max\<close> starts at \<open>-1\<close>, which is below every visible index;
  parent indices start at \<open>-L\<close>, and for two latent nodes \<open>-1\<close> is not below \<open>-2\<close>. The
  difference shows: with two latent and two visible nodes, latent \<open>i\<close> the parent of
  visible node \<open>i\<close>, the code puts one node into each of the layers 1 and 2, while a
  marker that starts below \<open>-2\<close> puts both nodes into layer 2.
\<close>

theorem layer_marker_not_below_latents:
  "layer_max (init_build 2 2) = - 1 \<and> \<not> layer_max (init_build 2 2) < - int 2 \<and>
   layer_max (spec_init_build 2 2) < - int 2 \<and>
   map num (tl (layers (build_graph diagonal_structure 2 2))) = [1, 1] \<and>
   map num (tl (layers (spec_build_graph diagonal_structure 2 2))) = [0, 2] \<and>
   map num (tl (layers_vec (projr (fst
     (new_SEMNANSolver [] diagonal_structure undefined_tensor kFloat (\<lambda>k. 1)))))) = [1, 1]"
  by code_simp

text \<open>
  The layering that the first loop builds (lines 129 to 159), for every structure
  whose column order respects a topological order: the layer at position \<open>k \<ge> 1\<close> has
  the index \<open>k\<close>, every visible node is assigned to exactly one layer, and every parent
  of a node assigned to layer \<open>i\<close> is a latent node or a visible node assigned to a layer
  with index strictly less than \<open>i\<close>.
\<close>

lemma first_loop_layering:
  assumes "topological S L V"
  shows "(\<forall>k. 1 \<le> k \<and> k < length (layers (build_graph S L V)) \<longrightarrow>
            idx (layers (build_graph S L V) ! k) = int k) \<and>
         (\<forall>n<V. \<exists>!k. in_layer (layers (build_graph S L V)) k n) \<and>
         (\<forall>c<V. \<forall>r<L + V. at2 S r c \<longrightarrow>
            r < L \<or>
            (\<forall>i j. in_layer (layers (build_graph S L V)) i c \<and>
                   in_layer (layers (build_graph S L V)) j (r - L) \<longrightarrow> j < i))"
proof -
  let ?lv = "layers (build_graph S L V)"
  from graph_inv_build [of S L V] have li: "layers_inv V ?lv"
    by (simp add: graph_inv_def)
  have 1: "\<forall>k. 1 \<le> k \<and> k < length ?lv \<longrightarrow> idx (?lv ! k) = int k"
    using li by (simp add: layers_inv_def)
  have 2: "\<forall>n<V. \<exists>!k. in_layer ?lv k n"
  proof (intro allI impI)
    fix n assume "n < V"
    with li obtain k where "in_layer ?lv k n" "\<forall>j. in_layer ?lv j n \<longrightarrow> j = k"
      unfolding layers_inv_def by blast
    then show "\<exists>!k. in_layer ?lv k n" by blast
  qed
  have 3: "\<forall>c<V. \<forall>r<L + V. at2 S r c \<longrightarrow> r < L \<or>
            (\<forall>i j. in_layer ?lv i c \<and> in_layer ?lv j (r - L) \<longrightarrow> j < i)"
  proof (intro allI impI)
    fix c r assume cr: "c < V" "r < L + V" "at2 S r c"
    show "r < L \<or> (\<forall>i j. in_layer ?lv i c \<and> in_layer ?lv j (r - L) \<longrightarrow> j < i)"
    proof (cases "r < L")
      case True
      then show ?thesis ..
    next
      case False
      then have "L \<le> r" by simp
      with order_inv_build [OF assms] cr
      have "\<forall>i j. in_layer ?lv i c \<and> in_layer ?lv j (r - L) \<longrightarrow> j < i"
        unfolding order_inv_def by blast
      then show ?thesis ..
    qed
  qed
  from 1 2 3 show ?thesis by blast
qed

text \<open>
  A construction that succeeds hands this layering on: the layers of the solver hold
  the indices, first nodes and counts that the first loop has recorded.
\<close>

theorem layering_partition_and_order:
  assumes "new_SEMNANSolver h st pa dt noise = (Inr s, h')"
    and "topological st (latent_size s) (visible_size s)"
  shows "layer_max (init_build (latent_size s) (visible_size s)) = - 1 \<and>
         (\<forall>k. 1 \<le> k \<and> k < length (layers_vec s) \<longrightarrow> idx (layers_vec s ! k) = int k) \<and>
         (\<forall>n<visible_size s. \<exists>!k. in_layer (layers_vec s) k n) \<and>
         (\<forall>c<visible_size s. \<forall>r<latent_size s + visible_size s. at2 st r c \<longrightarrow>
            r < latent_size s \<or>
            (\<forall>i j. in_layer (layers_vec s) i c \<and> in_layer (layers_vec s) j (r - latent_size s)
               \<longrightarrow> j < i))"
proof -
  let ?L = "latent_size s" and ?V = "visible_size s"
  let ?b = "build_graph st ?L ?V"
  note il = in_layer_constructed [OF assms(1)]
  note c = constructed [OF assms(1)]
  from graph_inv_build [of st ?L ?V] have li: "layers_inv ?V (layers ?b)"
    by (simp add: graph_inv_def)
  have 1: "layer_max (init_build ?L ?V) = - 1"
    by (simp add: init_build_def)
  have 2: "\<forall>k. 1 \<le> k \<and> k < length (layers_vec s) \<longrightarrow> idx (layers_vec s ! k) = int k"
    using li c(8,9) by (simp add: layers_inv_def)
  have 3: "\<forall>n<?V. \<exists>!k. in_layer (layers_vec s) k n"
  proof (intro allI impI)
    fix n assume "n < ?V"
    with li obtain k where "in_layer (layers ?b) k n"
      "\<forall>j. in_layer (layers ?b) j n \<longrightarrow> j = k"
      unfolding layers_inv_def by blast
    then show "\<exists>!k. in_layer (layers_vec s) k n"
      unfolding il by blast
  qed
  have 4: "\<forall>c<?V. \<forall>r<?L + ?V. at2 st r c \<longrightarrow> r < ?L \<or>
            (\<forall>i j. in_layer (layers_vec s) i c \<and> in_layer (layers_vec s) j (r - ?L) \<longrightarrow> j < i)"
  proof (intro allI impI)
    fix c r assume cr: "c < ?V" "r < ?L + ?V" "at2 st r c"
    show "r < ?L \<or>
        (\<forall>i j. in_layer (layers_vec s) i c \<and> in_layer (layers_vec s) j (r - ?L) \<longrightarrow> j < i)"
    proof (cases "r < ?L")
      case True
      then show ?thesis ..
    next
      case False
      then have "?L \<le> r" by simp
      with order_inv_build [OF assms(2)] cr
      have "\<forall>i j. in_layer (layers ?b) i c \<and> in_layer (layers ?b) j (r - ?L) \<longrightarrow> j < i"
        unfolding order_inv_def by blast
      then show ?thesis unfolding il by blast
    qed
  qed
  from 1 2 3 4 show ?thesis by blast
qed

theorem layering_partition_and_order_witness:
  "new_SEMNANSolver [] chain_structure undefined_tensor kFloat (\<lambda>k. 1) =
     (Inr chain_solver, chain_heap) \<and>
   topological chain_structure (latent_size chain_solver) (visible_size chain_solver) \<and>
   at2 chain_structure 2 2 \<and>
   in_layer (layers_vec chain_solver) 4 2 \<and> in_layer (layers_vec chain_solver) 3 1 \<and>
   (\<exists>!k. in_layer (layers_vec chain_solver) k 2)"
proof (intro conjI)
  show "new_SEMNANSolver [] chain_structure undefined_tensor kFloat (\<lambda>k. 1) =
     (Inr chain_solver, chain_heap)"
    by (rule new_chain_solver)
  have "topological chain_structure 1 3"
    by (simp add: topological_iff chain_structure_def at2_def less_Suc_eq eval_nat_numeral)
  then show t: "topological chain_structure (latent_size chain_solver) (visible_size chain_solver)"
    using chain_solver_layers by simp
  show "at2 chain_structure 2 2"
    by code_simp
  show "in_layer (layers_vec chain_solver) 4 2"
    by code_simp
  show "in_layer (layers_vec chain_solver) 3 1"
    by code_simp
  from layering_partition_and_order [OF new_chain_solver t] chain_solver_layers
  show "\<exists>!k. in_layer (layers_vec chain_solver) k 2"
    by simp
qed

text \<open>
  Two latent nodes and one visible node, with the one edge from the first latent node to
  the visible node: the column order respects a topological order.
\<close>

lemma orphan_topological: "topological orphan_structure 2 1"
  by (simp add: topological_iff orphan_structure_def matrix_tensor_def at2_def)

text \<open>
  C6. The claim promises the layering for every structure that encodes a valid DAG in
  topological column order. Two latent nodes and one visible node, with the one edge from
  the first latent node to the visible node, are such a DAG: the visible node has the
  one parent, latent \<open>-2\<close>. The first loop assigns the visible node to layer 1. The
  compilation then reaches the latent node without a child, indexes
  \<open>latent_neighbors_vec\<close> at \<open>-1\<close> (line 194), and the constructor ends without a solver:
  no layering is delivered for this structure.
\<close>

theorem no_layering_for_childless_latent:
  "sizes orphan_structure = [3, 1] \<and> elems orphan_structure = [True, False, False] \<and>
   parents_of orphan_structure 2 1 0 = [- 2] \<and>
   map num (tl (layers (build_graph orphan_structure 2 1))) = [1] \<and>
   new_SEMNANSolver [] orphan_structure undefined_tensor kFloat (\<lambda>k. 1) =
     (Inl (Vector_out_of_bounds (- 1)), [])"
  by code_simp

subsection \<open>The presence ranges and the latent widths\<close>

text \<open>
  C8, as claimed: the presence range is the range of the layer indices of the latent's
  children, and the latent width of a layer counts the latents whose range covers it.
  For one latent and one visible node with the edge between them, the child is assigned
  to the layer of index 2 and to no other, and the compiled range is \<open>[1, 1]\<close>, not
  \<open>[2, 2]\<close>; the latent width 1 is recorded in the layer at position 1, and the layer of
  the child has latent width 0.
\<close>

theorem presence_range_off_by_one:
  "new_SEMNANSolver [] edge_structure undefined_tensor kFloat (\<lambda>k. 1) =
     (Inr edge_solver, [[1, 0], [0, 0], [0, 0], [0, 0], [0, 0, 0, 0]]) \<and>
   at2 edge_structure 0 0 \<and>
   in_layer (layers_vec edge_solver) 2 0 \<and> \<not> in_layer (layers_vec edge_solver) 1 0 \<and>
   length (layers_vec edge_solver) = 3 \<and> idx (layers_vec edge_solver ! 2) = 2 \<and>
   latent_presence_range edge_solver = [(1, 1)] \<and>
   latent_presence_range edge_solver \<noteq> [(2, 2)] \<and>
   lat_width (layers_vec edge_solver ! 1) = 1 \<and> lat_width (layers_vec edge_solver ! 2) = 0"
  using new_edge_solver
  by (simp add: edge_solver_def in_layer_def edge_structure_def matrix_tensor_def at2_def)

text \<open>
  C8, amended: for every construction that succeeds, the presence range of every latent
  node is \<open>[minLayer - 1, maxLayer - 1]\<close>, where \<open>minLayer\<close> and \<open>maxLayer\<close> are the least
  and the greatest index of a layer to which a child of the latent is assigned (each
  discovery stores \<open>layers_vec.back().idx - 1\<close>): both ends, plus one, are layers of
  children of the latent, and the layer of every child lies between them. The latent
  width recorded in \<open>layers_vec[l]\<close> is the number of latents whose stored range covers \<open>l\<close>.
\<close>

theorem presence_ranges_and_latent_widths:
  assumes "new_SEMNANSolver h st pa dt noise = (Inr s, h')"
  shows "(\<forall>r<latent_size s.
            0 \<le> fst (latent_presence_range s ! r) \<and>
            (\<exists>c<visible_size s. at2 st r c \<and>
               in_layer (layers_vec s) (nat (fst (latent_presence_range s ! r)) + 1) c) \<and>
            (\<exists>c<visible_size s. at2 st r c \<and>
               in_layer (layers_vec s) (nat (snd (latent_presence_range s ! r)) + 1) c) \<and>
            (\<forall>c<visible_size s. at2 st r c \<longrightarrow>
               (\<forall>k. in_layer (layers_vec s) k c \<longrightarrow>
                  fst (latent_presence_range s ! r) + 1 \<le> int k \<and>
                  int k \<le> snd (latent_presence_range s ! r) + 1))) \<and>
         (\<forall>l<length (layers_vec s). lat_width (layers_vec s ! l) =
            card {r. r < latent_size s \<and> fst (latent_presence_range s ! r) \<le> int l \<and>
                     int l \<le> snd (latent_presence_range s ! r)})"
proof -
  let ?L = "latent_size s" and ?V = "visible_size s"
  let ?b = "build_graph st ?L ?V"
  note il = in_layer_constructed [OF assms]
  note c = constructed [OF assms]
  have a: "0 \<le> fst (latent_presence_range s ! r) \<and>
            (\<exists>c<?V. at2 st r c \<and>
               in_layer (layers_vec s) (nat (fst (latent_presence_range s ! r)) + 1) c) \<and>
            (\<exists>c<?V. at2 st r c \<and>
               in_layer (layers_vec s) (nat (snd (latent_presence_range s ! r)) + 1) c) \<and>
            (\<forall>c<?V. at2 st r c \<longrightarrow>
               (\<forall>k. in_layer (layers_vec s) k c \<longrightarrow>
                  fst (latent_presence_range s ! r) + 1 \<le> int k \<and>
                  int k \<le> snd (latent_presence_range s ! r) + 1))" if r: "r < ?L" for r
  proof -
    from graph_inv_build [of st ?L ?V] r
    have ri: "range_inv st ?V (layers ?b) r (ranges ?b ! r)"
      by (simp add: graph_inv_def)
    from c(3) r have "\<not> (\<forall>c'<?V. \<not> at2 st r c')" by (simp add: childless_iff)
    with ri show ?thesis
      unfolding range_inv_def il c(4) by (simp only: if_False) blast
  qed
  have b: "lat_width (layers_vec s ! l) =
      card {r. r < ?L \<and> fst (latent_presence_range s ! r) \<le> int l \<and>
               int l \<le> snd (latent_presence_range s ! r)}" if l: "l < length (layers_vec s)" for l
  proof -
    from c(9) l have "lat_width (layers_vec s ! l) =
        length (present (latent_presence_range s) l [0..<?L])"
      by simp
    also have "\<dots> = card {i. i < length [0..<?L] \<and>
        fst (latent_presence_range s ! ([0..<?L] ! i)) \<le> int l \<and>
        int l \<le> snd (latent_presence_range s ! ([0..<?L] ! i))}"
      unfolding present_def by (rule length_filter_conv_card)
    also have "{i. i < length [0..<?L] \<and>
        fst (latent_presence_range s ! ([0..<?L] ! i)) \<le> int l \<and>
        int l \<le> snd (latent_presence_range s ! ([0..<?L] ! i))} =
      {r. r < ?L \<and> fst (latent_presence_range s ! r) \<le> int l \<and>
               int l \<le> snd (latent_presence_range s ! r)}"
      by auto
    finally show ?thesis .
  qed
  from a b show ?thesis by blast
qed

theorem presence_ranges_and_latent_widths_witness:
  "new_SEMNANSolver [] chain_structure undefined_tensor kFloat (\<lambda>k. 1) =
     (Inr chain_solver, chain_heap) \<and>
   latent_presence_range chain_solver ! 0 = (1, 3) \<and>
   in_layer (layers_vec chain_solver) (nat 1 + 1) 0 \<and>
   in_layer (layers_vec chain_solver) (nat 3 + 1) 2 \<and>
   lat_width (layers_vec chain_solver ! 3) = 1 \<and>
   card {r. r < latent_size chain_solver \<and>
            fst (latent_presence_range chain_solver ! r) \<le> int 3 \<and>
            int 3 \<le> snd (latent_presence_range chain_solver ! r)} = 1"
proof (intro conjI)
  show "new_SEMNANSolver [] chain_structure undefined_tensor kFloat (\<lambda>k. 1) =
     (Inr chain_solver, chain_heap)"
    by (rule new_chain_solver)
  show "latent_presence_range chain_solver ! 0 = (1, 3)"
    by code_simp
  show "in_layer (layers_vec chain_solver) (nat 1 + 1) 0"
    by code_simp
  show "in_layer (layers_vec chain_solver) (nat 3 + 1) 2"
    by code_simp
  show w: "lat_width (layers_vec chain_solver ! 3) = 1"
    by code_simp
  have l: "(3::nat) < length (layers_vec chain_solver)"
    by code_simp
  from presence_ranges_and_latent_widths [OF new_chain_solver] l
  have "lat_width (layers_vec chain_solver ! 3) =
     card {r. r < latent_size chain_solver \<and>
              fst (latent_presence_range chain_solver ! r) \<le> int 3 \<and>
              int 3 \<le> snd (latent_presence_range chain_solver ! r)}"
    by blast
  with w show "card {r. r < latent_size chain_solver \<and>
      fst (latent_presence_range chain_solver ! r) \<le> int 3 \<and>
      int 3 \<le> snd (latent_presence_range chain_solver ! r)} = 1"
    by (simp only:)
qed

subsection \<open>The offset arrays of the compiled graph\<close>

text \<open>
  C9. For every construction that succeeds (on a structure tensor that has as many
  elements as its sizes say), the parent offsets \<open>parents_bases\<close> and the child offsets
  \<open>children_bases\<close> (row-major, a row for every node and an entry for every layer) are
  monotone non-decreasing, and the last parent offset is the number of edges of the
  structure.
\<close>

theorem csr_offsets_monotone:
  assumes "well_formed st" and "new_SEMNANSolver h st pa dt noise = (Inr s, h')"
  shows "sorted (parents_bases s) \<and> sorted (children_bases s) \<and>
         last (parents_bases s) = int (edge_total st)"
proof -
  note c = constructed [OF assms(2)]
  from graph_inv_build [of st "latent_size s" "visible_size s"]
  have "edge_count (build_graph st (latent_size s) (visible_size s)) =
      sum_list (map (\<lambda>c'. length (parents_of st (latent_size s) (visible_size s) c'))
        [0..<visible_size s])"
    by (simp add: graph_inv_def)
  also have "\<dots> = edge_total st"
    by (rule edges_by_columns [OF assms(1) c(1)])
  finally show ?thesis using c(5,6,7) by simp
qed

theorem csr_offsets_monotone_witness:
  "well_formed chain_structure \<and>
   new_SEMNANSolver [] chain_structure undefined_tensor kFloat (\<lambda>k. 1) =
     (Inr chain_solver, chain_heap) \<and>
   parents_bases chain_solver = [0, 1, 2, 4] \<and> sorted (parents_bases chain_solver) \<and>
   children_bases chain_solver =
     [0, 0, 1, 1, 2, 2, 2, 2, 3, 3, 3, 3, 3, 3, 4, 4, 4, 4, 4, 4] \<and>
   sorted (children_bases chain_solver) \<and>
   edge_total chain_structure = 4 \<and>
   last (parents_bases chain_solver) = int (edge_total chain_structure)"
proof -
  have w: "well_formed chain_structure"
    by (simp add: well_formed_def chain_structure_def)
  have e: "edge_total chain_structure = 4"
    by (simp add: edge_total_def chain_structure_def)
  from csr_offsets_monotone [OF w new_chain_solver] w e new_chain_solver chain_solver_layers
  show ?thesis by simp
qed

subsection \<open>A latent node without a child\<close>

text \<open>
  C10. \<open>make_structures\<close> indexes out of bounds exactly when some latent node has no
  outgoing edge: the presence range of such a latent stays \<open>[-1, -1]\<close>, and the loop
  over the presence ranges indexes \<open>latent_neighbors_vec\<close> at \<open>-1\<close>. When every latent
  node has an outgoing edge, no index of the compilation is out of bounds and it returns.
\<close>

theorem childless_latent_out_of_bounds:
  "(make_structures s = Inl (Vector_out_of_bounds (- 1)) \<longleftrightarrow>
      (\<exists>r<latent_size s. childless (structure_t s) (visible_size s) r)) \<and>
   ((\<exists>s'. make_structures s = Inr s') \<longleftrightarrow>
      (\<forall>r<latent_size s. \<not> childless (structure_t s) (visible_size s) r)) \<and>
   (\<forall>r<latent_size s. childless (structure_t s) (visible_size s) r \<longrightarrow>
      ranges (build_graph (structure_t s) (latent_size s) (visible_size s)) ! r = (- 1, - 1))"
proof (cases "\<exists>r<latent_size s. childless (structure_t s) (visible_size s) r")
  case True
  from make_structures_fails [OF True] True ranges_of_build(1) show ?thesis
    by auto
next
  case False
  then have "\<forall>r<latent_size s. \<not> childless (structure_t s) (visible_size s) r" by blast
  from make_structures_ok [OF this] obtain s' where "make_structures s = Inr s'" by blast
  with False show ?thesis by auto
qed

theorem childless_latent_out_of_bounds_witness:
  "childless orphan_structure 1 1 \<and> \<not> childless orphan_structure 1 0 \<and>
   make_structures (projr (fst (init_parameters [] orphan_structure undefined_tensor kFloat (\<lambda>k. 1)))) =
     Inl (Vector_out_of_bounds (- 1)) \<and>
   ranges (build_graph orphan_structure 2 1) ! 1 = (- 1, - 1)"
proof -
  have c: "childless orphan_structure 1 1" "\<not> childless orphan_structure 1 0"
    by code_simp+
  from childless_latent_out_of_bounds
    [of "projr (fst (init_parameters [] orphan_structure undefined_tensor kFloat (\<lambda>k. 1)))"]
    c orphan_init
  show ?thesis by auto
qed

end
